theory Spec2Isabelle
  imports Complex_Main "HOL-Library.AList"
begin

section \<open>NanoQuiz server: a shallow embedding of server.js\<close>

text \<open>
  The server keeps every quiz session in one process: a registry of games, the game
  objects themselves, the pending round timers and the rate limiter's table. Handlers run
  to completion one after another, so a handler is a function from the server state to
  the next one. What the clock, the id generator and the random number generator return
  is input to the handler that asks for it.
\<close>

subsection \<open>Values received from clients\<close>

text \<open>
  Payloads arrive as parsed JSON. A missing property reads as \<open>undefined\<close>, which is
  \<open>None\<close> of \<open>json option\<close>. An object is its list of own properties, keys distinct.
\<close>

datatype json =
    JNull
  | JBool bool
  | JNum rat
  | JStr string
  | JArr "json list"
  | JObj "(string \<times> json) list"

text \<open>Property access \<open>v.k\<close> for the keys the server reads; an array has none of them.\<close>

definition field :: "json \<Rightarrow> string \<Rightarrow> json option" where
  "field v k = (case v of JObj kvs \<Rightarrow> map_of kvs k | _ \<Rightarrow> None)"

definition typeof :: "json option \<Rightarrow> string" where
  "typeof v =
     (case v of
        None \<Rightarrow> ''undefined''
      | Some JNull \<Rightarrow> ''object''
      | Some (JBool _) \<Rightarrow> ''boolean''
      | Some (JNum _) \<Rightarrow> ''number''
      | Some (JStr _) \<Rightarrow> ''string''
      | Some (JArr _) \<Rightarrow> ''object''
      | Some (JObj _) \<Rightarrow> ''object'')"

definition truthy :: "json option \<Rightarrow> bool" where
  "truthy v =
     (case v of
        None \<Rightarrow> False
      | Some JNull \<Rightarrow> False
      | Some (JBool b) \<Rightarrow> b
      | Some (JNum n) \<Rightarrow> n \<noteq> 0
      | Some (JStr s) \<Rightarrow> s \<noteq> []
      | Some (JArr _) \<Rightarrow> True
      | Some (JObj _) \<Rightarrow> True)"

definition isArray :: "json option \<Rightarrow> bool" where
  "isArray v = (case v of Some (JArr _) \<Rightarrow> True | _ \<Rightarrow> False)"

definition elements :: "json option \<Rightarrow> json list" where
  "elements v = (case v of Some (JArr xs) \<Rightarrow> xs | _ \<Rightarrow> [])"

definition str_of :: "json option \<Rightarrow> string" where
  "str_of v = (case v of Some (JStr s) \<Rightarrow> s | _ \<Rightarrow> [])"

text \<open>
  Characters are the code points U+0000 to U+00FF. In that range the white space and line
  terminators that \<open>String.prototype.trim\<close> strips are tab, line feed, vertical tab, form
  feed, carriage return, space and no-break space.
\<close>

definition is_ws :: "char \<Rightarrow> bool" where
  "is_ws c = (c \<in> set [CHR 0x09, CHR 0x0A, CHR 0x0B, CHR 0x0C, CHR 0x0D, CHR '' '', CHR 0xA0])"

definition trim :: "string \<Rightarrow> string" where
  "trim s = rev (dropWhile is_ws (rev (dropWhile is_ws s)))"

subsection \<open>validateQuizPayload\<close>

text \<open>
  Each function below is one loop of the source, with its early returns in the source's
  order. \<open>blank v\<close> is the test \<open>typeof v !== 'string' || !v.trim()\<close>.
\<close>

definition blank :: "json option \<Rightarrow> bool" where
  "blank v = (typeof v \<noteq> ''string'' \<or> trim (str_of v) = [])"

fun validateOptions :: "json list \<Rightarrow> bool" where
  "validateOptions [] = True"
| "validateOptions (opt # opts) =
     (if \<not> truthy (Some opt) \<or> typeof (Some opt) \<noteq> ''object'' then False
      else if blank (field opt ''id'') then False
      else if blank (field opt ''label'') then False
      else validateOptions opts)"

fun validateCorrectIds :: "json list \<Rightarrow> bool" where
  "validateCorrectIds [] = True"
| "validateCorrectIds (cid # cids) =
     (if blank (Some cid) then False else validateCorrectIds cids)"

fun validateQuestions :: "json list \<Rightarrow> bool" where
  "validateQuestions [] = True"
| "validateQuestions (q # qs) =
     (if \<not> truthy (Some q) \<or> typeof (Some q) \<noteq> ''object'' then False
      else if blank (field q ''id'') then False
      else if blank (field q ''text'') then False
      else if \<not> isArray (field q ''options'') \<or> length (elements (field q ''options'')) < 2
        then False
      else if \<not> validateOptions (elements (field q ''options'')) then False
      else if \<not> isArray (field q ''correctOptionIds'')
              \<or> length (elements (field q ''correctOptionIds'')) = 0
        then False
      else if \<not> validateCorrectIds (elements (field q ''correctOptionIds'')) then False
      else validateQuestions qs)"

definition validateQuizPayload :: "json \<Rightarrow> bool" where
  "validateQuizPayload payload =
     (if \<not> truthy (Some payload) \<or> typeof (Some payload) \<noteq> ''object'' then False
      else if \<not> isArray (field payload ''questions'')
              \<or> length (elements (field payload ''questions'')) = 0
        then False
      else if blank (field payload ''title'') then False
      else validateQuestions (elements (field payload ''questions'')))"

subsection \<open>The rate limiter\<close>

definition RATE_LIMIT_WINDOW_MS :: int where
  "RATE_LIMIT_WINDOW_MS = 10 * 1000"

definition RATE_LIMIT_MAX :: nat where
  "RATE_LIMIT_MAX = 30"

text \<open>The loop \<open>while (arr.length && arr[0] < now - RATE_LIMIT_WINDOW_MS) arr.shift()\<close>.\<close>

fun shift_old :: "int \<Rightarrow> int list \<Rightarrow> int list" where
  "shift_old now [] = []"
| "shift_old now (t # ts) =
     (if t < now - RATE_LIMIT_WINDOW_MS then shift_old now ts else t # ts)"

text \<open>
  \<open>rateLimit\<close> returns the verdict and the table it leaves behind: the time stamp of the
  event is recorded whether the event is admitted or not.
\<close>

definition rateLimit :: "(string \<rightharpoonup> int list) \<Rightarrow> string \<Rightarrow> int \<Rightarrow> bool \<times> (string \<rightharpoonup> int list)" where
  "rateLimit m ip now =
     (let m1 = (if m ip = None then m(ip \<mapsto> []) else m);
          arr = shift_old now (the (m1 ip)) @ [now];
          m2 = m1(ip \<mapsto> arr)
      in if length arr > RATE_LIMIT_MAX then (False, m2) else (True, m2))"

subsection \<open>Games, players and rounds\<close>

record question =
  id' :: string
  text' :: string
  imageUrl :: "json option"
  options :: "json list"
  correctOptionIds :: "string list"
  index :: nat
  timeLimitSeconds :: rat

text \<open>
  \<open>selectedOptionId\<close> holds whatever the client sent; \<open>JNull\<close> stands for both
  \<open>null\<close> and \<open>undefined\<close>, which \<open>!= null\<close> does not tell apart.
\<close>

record player =
  name :: string
  score :: int
  answeredAtMs :: "int option"
  selectedOptionId :: json
  lastCorrect :: bool

text \<open>A timer handle names one pending call of \<open>setTimeout\<close>.\<close>

record round_state =
  startMs :: int
  endMs :: rat
  timer :: nat
  awaiting :: "string set"

text \<open>
  \<open>players\<close> is a JavaScript \<open>Map\<close>: an association list in insertion order with
  distinct keys (\<open>map_of\<close> reads, \<open>AList.update\<close> writes in place or appends,
  \<open>AList.delete\<close> removes).
\<close>

record game =
  game_id :: string
  hostSocketId :: string
  title :: string
  questions :: "question list"
  players :: "(string \<times> player) list"
  started :: bool
  currentIndex :: int
  round' :: "round_state option"

subsection \<open>What the server sends\<close>

type_synonym leaderboard = "(string \<times> int \<times> bool) list"

datatype ack =
    AckError string
  | AckCreated string
  | AckJoined string string

datatype message =
    LobbyUpdate "string list" string string
  | GameStarted string
  | QuestionShow string int nat string "json option" rat "json list"
  | QuestionReveal "string list" int nat leaderboard
  | HostCanAdvance
  | GameOver leaderboard
  | GameCancelled string
  | PlayerLocked json
  | Ack ack

text \<open>An emission is the room or socket it is addressed to and the message.\<close>

type_synonym emission = "string \<times> message"

subsection \<open>The server state\<close>

text \<open>
  A game object lives in \<open>heap\<close> under its reference. The registry \<open>games\<close> maps a game
  id to the reference, in insertion order; a timer's callback holds the reference of the
  game it was created for, and keeps it when the registry drops the game. \<open>timers\<close> are
  the pending timeouts; \<open>outbox\<close> is everything emitted so far, oldest first.
\<close>

record server =
  games :: "(string \<times> nat) list"
  heap :: "nat \<rightharpoonup> game"
  next_ref :: nat
  timers :: "nat \<rightharpoonup> nat"
  next_timer :: nat
  rateLimitMap :: "string \<rightharpoonup> int list"
  outbox :: "emission list"

datatype error = TypeError

definition MAX_GAMES :: nat where
  "MAX_GAMES = 100"

definition MAX_PLAYERS_PER_GAME :: nat where
  "MAX_PLAYERS_PER_GAME = 100"

definition emit :: "string \<Rightarrow> message \<Rightarrow> server \<Rightarrow> server" where
  "emit to msg s = s\<lparr>outbox := outbox s @ [(to, msg)]\<rparr>"

definition clearTimeout :: "nat \<Rightarrow> server \<Rightarrow> server" where
  "clearTimeout h s = s\<lparr>timers := (timers s)(h := None)\<rparr>"

text \<open>\<open>setTimeout\<close> with a callback that ends the round of the game at \<open>r\<close>.\<close>

definition setTimeout :: "nat \<Rightarrow> server \<Rightarrow> nat \<times> server" where
  "setTimeout r s =
     (next_timer s, s\<lparr>timers := (timers s)(next_timer s \<mapsto> r), next_timer := next_timer s + 1\<rparr>)"

definition put_game :: "nat \<Rightarrow> game \<Rightarrow> server \<Rightarrow> server" where
  "put_game r g s = s\<lparr>heap := (heap s)(r \<mapsto> g)\<rparr>"

text \<open>\<open>questions[i]\<close>, which is \<open>undefined\<close> outside the array.\<close>

definition question_at :: "game \<Rightarrow> int \<Rightarrow> question option" where
  "question_at g i =
     (if 0 \<le> i \<and> i < int (length (questions g)) then Some (questions g ! nat i) else None)"

subsection \<open>Creating a game\<close>

text \<open>
  \<open>shuffle\<close> pairs each element with a random key and sorts by the key; the sort is
  stable. \<open>rnd i\<close> is what the i-th call of \<open>Math.random\<close> returns.
\<close>

definition shuffle :: "(nat \<Rightarrow> rat) \<Rightarrow> 'a list \<Rightarrow> 'a list" where
  "shuffle rnd arr = map snd (sort_key fst (zip (map rnd [0..<length arr]) arr))"

text \<open>
  \<open>v || d\<close> for a time limit. The quiz format gives the time limits as numbers. For a
  number, \<open>null\<close>, \<open>false\<close>, an empty string and a missing property this is what the source
  computes. Any other value (a non-empty string, \<open>true\<close>, an array, an object) the source
  hands on to \<open>Math.min\<close>, which coerces it to a number or to NaN; here it counts as
  absent. So the games of this theory are the source's games for payloads whose time
  limits are numbers or absent.
\<close>

definition number_or :: "json option \<Rightarrow> rat \<Rightarrow> rat" where
  "number_or v d = (case v of Some (JNum n) \<Rightarrow> (if n = 0 then d else n) | _ \<Rightarrow> d)"

definition clamp_time :: "rat \<Rightarrow> rat" where
  "clamp_time x = max 5 (min 90 x)"

definition make_question :: "rat \<Rightarrow> json \<times> nat \<Rightarrow> question" where
  "make_question defaultTime qi =
     (case qi of (q, idx) \<Rightarrow>
        \<lparr>id' = str_of (field q ''id''),
         text' = str_of (field q ''text''),
         imageUrl = field q ''imageUrl'',
         options = elements (field q ''options''),
         correctOptionIds = map (\<lambda>c. str_of (Some c)) (elements (field q ''correctOptionIds'')),
         index = idx,
         timeLimitSeconds = clamp_time (number_or (field q ''timeLimitSeconds'') defaultTime)\<rparr>)"

text \<open>\<open>nid\<close> is the id that \<open>nanoid()\<close> returns.\<close>

definition createGameState :: "string \<Rightarrow> json \<Rightarrow> string \<Rightarrow> (nat \<Rightarrow> rat) \<Rightarrow> game" where
  "createGameState hostSocket payload nid rnd =
     (let defaultTime = clamp_time (number_or (field payload ''defaultTimeLimitSeconds'') 20);
          shuffled = shuffle rnd (elements (field payload ''questions''));
          shuffledQuestions = map (make_question defaultTime) (zip shuffled [0..<length shuffled])
      in \<lparr>game_id = nid,
          hostSocketId = hostSocket,
          title = (if truthy (field payload ''title'') then str_of (field payload ''title'')
                   else ''Quiz''),
          questions = shuffledQuestions,
          players = [],
          started = False,
          currentIndex = - 1,
          round' = None\<rparr>)"

definition getPublicLeaderboard :: "game \<Rightarrow> leaderboard" where
  "getPublicLeaderboard g =
     sort_key (\<lambda>e. - fst (snd e))
       (map (\<lambda>kp. (name (snd kp), score (snd kp), lastCorrect (snd kp))) (players g))"

definition broadcastLobby :: "game \<Rightarrow> server \<Rightarrow> server" where
  "broadcastLobby g s =
     emit (game_id g) (LobbyUpdate (map (\<lambda>kp. name (snd kp)) (players g)) (game_id g) (title g)) s"

subsection \<open>Rounds\<close>

text \<open>\<open>correctOptionIds.includes(v)\<close>: the correct ids are strings, so only an equal string is found.\<close>

definition includes' :: "string list \<Rightarrow> json \<Rightarrow> bool" where
  "includes' cs v = (case v of JStr x \<Rightarrow> x \<in> set cs | _ \<Rightarrow> False)"

text \<open>
  The body of the scoring loop of \<open>endRound\<close>, for one player. A time stamp is truthy
  when it is set and not 0. The arithmetic is exact here; the source computes in double
  precision. The two give the same points when the time limit is a whole number of
  seconds and the answer is stamped no earlier than the start of the round: the time
  limit in milliseconds, the end of the round and the time remaining are then integers,
  which the doubles hold exactly, and the rounding of the quotient does not reach the
  next integer. For other time limits the doubles can give one point less.
\<close>

definition score_player :: "question \<Rightarrow> rat \<Rightarrow> player \<Rightarrow> player" where
  "score_player q roundEnd p =
     (let answered = (selectedOptionId p \<noteq> JNull);
          correct = (answered \<and> includes' (correctOptionIds q) (selectedOptionId p));
          p1 = p\<lparr>lastCorrect := correct\<rparr>
      in if correct \<and> answeredAtMs p1 \<noteq> None \<and> answeredAtMs p1 \<noteq> Some 0 then
           let timeLimit = timeLimitSeconds q * 1000;
               timeRemaining = max 0 (roundEnd - of_int (the (answeredAtMs p1)));
               points = \<lfloor>500 + 500 * (timeRemaining / timeLimit)\<rfloor>
           in p1\<lparr>score := score p1 + points\<rparr>
         else p1)"

text \<open>
  \<open>endRound\<close>. With the current index outside the question list \<open>q\<close> is
  \<open>undefined\<close> and reading \<open>q.correctOptionIds\<close> throws, in the loop or when the reveal is
  built; nothing catches it, which ends the process: the result is the error.
\<close>

definition endRound :: "nat \<Rightarrow> server \<Rightarrow> error + server" where
  "endRound r s =
     (case heap s r of
        None \<Rightarrow> Inr s
      | Some g \<Rightarrow>
          (case round' g of
             None \<Rightarrow> Inr s
           | Some rd \<Rightarrow>
               (case question_at g (currentIndex g) of
                  None \<Rightarrow> Inl TypeError
                | Some q \<Rightarrow>
                    let s1 = clearTimeout (timer rd) s;
                        g1 = g\<lparr>players :=
                               map (\<lambda>kp. (fst kp, score_player q (endMs rd) (snd kp))) (players g)\<rparr>;
                        s2 = emit (game_id g1)
                               (QuestionReveal (correctOptionIds q) (currentIndex g1)
                                  (length (questions g1)) (getPublicLeaderboard g1)) s1;
                        g2 = g1\<lparr>round' := None\<rparr>
                    in Inr (emit (hostSocketId g2) HostCanAdvance (put_game r g2 s2)))))"

definition maybeEndEarly :: "nat \<Rightarrow> server \<Rightarrow> error + server" where
  "maybeEndEarly r s =
     (case heap s r of
        None \<Rightarrow> Inr s
      | Some g \<Rightarrow>
          (case round' g of
             None \<Rightarrow> Inr s
           | Some rd \<Rightarrow>
               if awaiting rd = {} then endRound r (clearTimeout (timer rd) s) else Inr s))"

definition endGame :: "game \<Rightarrow> server \<Rightarrow> server" where
  "endGame g s =
     (let s1 = emit (game_id g) (GameOver (getPublicLeaderboard g)) s
      in s1\<lparr>games := AList.delete (game_id g) (games s1)\<rparr>)"

text \<open>
  \<open>now\<close> is what \<open>Date.now()\<close> returns in \<open>startQuestion\<close>. The end of the round is the
  exact sum here; the source's double is the same number when the time limit is a whole
  number of seconds.
\<close>

definition startQuestion :: "nat \<Rightarrow> int \<Rightarrow> server \<Rightarrow> error + server" where
  "startQuestion r now s =
     (case heap s r of
        None \<Rightarrow> Inr s
      | Some g0 \<Rightarrow>
          let g = g0\<lparr>currentIndex := currentIndex g0 + 1\<rparr> in
          if currentIndex g \<ge> int (length (questions g)) then Inr (endGame g (put_game r g s))
          else
            (case question_at g (currentIndex g) of
               None \<Rightarrow> Inl TypeError
             | Some q \<Rightarrow>
                 let g1 = g\<lparr>players :=
                            map (\<lambda>kp. (fst kp, (snd kp)\<lparr>answeredAtMs := None,
                                   selectedOptionId := JNull, lastCorrect := False\<rparr>)) (players g)\<rparr>;
                     hs = setTimeout r s;
                     g2 = g1\<lparr>round' := Some \<lparr>startMs = now,
                            endMs = of_int now + timeLimitSeconds q * 1000,
                            timer = fst hs,
                            awaiting = set (map fst (players g1))\<rparr>\<rparr>
                 in Inr (emit (game_id g2)
                      (QuestionShow (id' q) (currentIndex g2) (length (questions g2)) (text' q)
                         (if truthy (imageUrl q) then imageUrl q else Some JNull)
                         (timeLimitSeconds q) (options q))
                      (put_game r g2 (snd hs)))))"

subsection \<open>sanitizeName\<close>

text \<open>Removing every match of \<open><[^>]*>\<close>, left to right.\<close>

function strip_tags :: "string \<Rightarrow> string" where
  "strip_tags [] = []"
| "strip_tags (c # cs) =
     (if c = CHR ''<'' \<and> CHR ''>'' \<in> set cs
      then strip_tags (tl (dropWhile (\<lambda>x. x \<noteq> CHR ''>'') cs))
      else c # strip_tags cs)"
  by pat_completeness auto
termination
proof (relation "measure length")
  fix c :: char and cs :: string
  have "length (tl (dropWhile (\<lambda>x. x \<noteq> CHR ''>'') cs)) \<le> length cs"
    using length_dropWhile_le [of "\<lambda>x. x \<noteq> CHR ''>''" cs] by simp
  then show "(tl (dropWhile (\<lambda>x. x \<noteq> CHR ''>'') cs), c # cs) \<in> measure length"
    by simp
qed simp_all

definition word_char :: "char \<Rightarrow> bool" where
  "word_char c =
     (let n = (of_char c :: nat)
      in (of_char CHR ''a'' \<le> n \<and> n \<le> of_char CHR ''z'')
         \<or> (of_char CHR ''A'' \<le> n \<and> n \<le> of_char CHR ''Z'')
         \<or> (of_char CHR ''0'' \<le> n \<and> n \<le> of_char CHR ''9'')
         \<or> c = CHR ''_'')"

definition name_char :: "char \<Rightarrow> bool" where
  "name_char c =
     (word_char c \<or> is_ws c \<or> c = CHR ''-'' \<or> c = CHR 0x27 \<or> c = CHR ''.'' \<or> c = CHR ''!'')"

definition sanitizeName :: "string \<Rightarrow> string" where
  "sanitizeName n = trim (take 20 (filter name_char (strip_tags n)))"

subsection \<open>The socket handlers\<close>

text \<open>\<open>ack && ack(response)\<close>: the response goes back to the calling socket.\<close>

definition send_ack :: "bool \<Rightarrow> string \<Rightarrow> ack \<Rightarrow> server \<Rightarrow> server" where
  "send_ack has_ack sock a s = (if has_ack then emit sock (Ack a) s else s)"

definition host_createGame ::
    "string \<Rightarrow> bool \<Rightarrow> json \<Rightarrow> string \<Rightarrow> (nat \<Rightarrow> rat) \<Rightarrow> server \<Rightarrow> error + server" where
  "host_createGame sock has_ack payload nid rnd s =
     (if length (games s) \<ge> MAX_GAMES then
        Inr (send_ack has_ack sock (AckError ''Too many games running. Try again later.'') s)
      else if \<not> validateQuizPayload payload then
        Inr (send_ack has_ack sock (AckError ''Invalid quiz JSON format.'') s)
      else
        let state = createGameState sock payload nid rnd;
            r = next_ref s;
            s1 = s\<lparr>heap := (heap s)(r \<mapsto> state), next_ref := r + 1,
                   games := AList.update (game_id state) r (games s)\<rparr>;
            s2 = send_ack has_ack sock (AckCreated (game_id state)) s1
        in Inr (broadcastLobby state s2))"

definition host_startGame :: "string \<Rightarrow> string \<Rightarrow> int \<Rightarrow> server \<Rightarrow> error + server" where
  "host_startGame sock gameId now s =
     (case map_of (games s) gameId of
        None \<Rightarrow> Inr s
      | Some r \<Rightarrow>
          (case heap s r of
             None \<Rightarrow> Inr s
           | Some g \<Rightarrow>
               if hostSocketId g \<noteq> sock \<or> started g then Inr s
               else
                 let g1 = g\<lparr>started := True\<rparr>
                 in startQuestion r now
                      (emit (game_id g1) (GameStarted (title g1)) (put_game r g1 s))))"

definition host_next :: "string \<Rightarrow> string \<Rightarrow> int \<Rightarrow> server \<Rightarrow> error + server" where
  "host_next sock gameId now s =
     (case map_of (games s) gameId of
        None \<Rightarrow> Inr s
      | Some r \<Rightarrow>
          (case heap s r of
             None \<Rightarrow> Inr s
           | Some g \<Rightarrow>
               if hostSocketId g \<noteq> sock then Inr s
               else startQuestion r now s))"

definition player_join :: "string \<Rightarrow> bool \<Rightarrow> string \<Rightarrow> string \<Rightarrow> server \<Rightarrow> error + server" where
  "player_join sock has_ack gameId nm s =
     (case map_of (games s) gameId of
        None \<Rightarrow> Inr (send_ack has_ack sock (AckError ''Game not found or already started'') s)
      | Some r \<Rightarrow>
          (case heap s r of
             None \<Rightarrow> Inr (send_ack has_ack sock (AckError ''Game not found or already started'') s)
           | Some g \<Rightarrow>
               if started g then
                 Inr (send_ack has_ack sock (AckError ''Game not found or already started'') s)
               else if length (players g) \<ge> MAX_PLAYERS_PER_GAME then
                 Inr (send_ack has_ack sock (AckError ''Game is full.'') s)
               else
                 let safeName = sanitizeName nm;
                     g1 = g\<lparr>players := AList.update sock
                            \<lparr>name = safeName, score = 0, answeredAtMs = None,
                             selectedOptionId = JNull, lastCorrect = False\<rparr> (players g)\<rparr>;
                     s1 = send_ack has_ack sock (AckJoined gameId (title g1)) (put_game r g1 s)
                 in Inr (broadcastLobby g1 s1)))"

text \<open>\<open>now\<close> is what \<open>Date.now()\<close> returns when the answer is recorded.\<close>

definition player_answer ::
    "string \<Rightarrow> string \<Rightarrow> json \<Rightarrow> json \<Rightarrow> int \<Rightarrow> server \<Rightarrow> error + server" where
  "player_answer sock gameId questionId optionId now s =
     (case map_of (games s) gameId of
        None \<Rightarrow> Inr s
      | Some r \<Rightarrow>
          (case heap s r of
             None \<Rightarrow> Inr s
           | Some g \<Rightarrow>
               (case round' g of
                  None \<Rightarrow> Inr s
                | Some rd \<Rightarrow>
                    (case map_of (players g) sock of
                       None \<Rightarrow> Inr s
                     | Some p \<Rightarrow>
                         (case question_at g (currentIndex g) of
                            None \<Rightarrow> Inr s
                          | Some q \<Rightarrow>
                              if JStr (id' q) \<noteq> questionId then Inr s
                              else if selectedOptionId p \<noteq> JNull then Inr s
                              else
                                let p1 = p\<lparr>selectedOptionId := optionId,
                                           answeredAtMs := Some now\<rparr>;
                                    g1 = g\<lparr>players := AList.update sock p1 (players g),
                                           round' := Some (rd\<lparr>awaiting := awaiting rd - {sock}\<rparr>)\<rparr>
                                in maybeEndEarly r
                                     (emit sock (PlayerLocked optionId) (put_game r g1 s)))))))"

text \<open>
  The loop of the disconnect handler over the registry, in its order; it stops at the
  first game the socket hosts or plays in.
\<close>

fun disconnect_loop :: "string \<Rightarrow> (string \<times> nat) list \<Rightarrow> server \<Rightarrow> error + server" where
  "disconnect_loop sock [] s = Inr s"
| "disconnect_loop sock ((gameId, r) # rest) s =
     (case heap s r of
        None \<Rightarrow> disconnect_loop sock rest s
      | Some g \<Rightarrow>
          if hostSocketId g = sock then
            let s1 = emit (game_id g) (GameCancelled ''Host disconnected'') s
            in Inr (s1\<lparr>games := AList.delete gameId (games s1)\<rparr>)
          else if map_of (players g) sock \<noteq> None then
            let g1 = g\<lparr>players := AList.delete sock (players g)\<rparr>;
                s1 = broadcastLobby g1 (put_game r g1 s)
            in (case round' g1 of
                  None \<Rightarrow> Inr s1
                | Some rd \<Rightarrow>
                    if length (players g1) = 0 then endRound r (clearTimeout (timer rd) s1)
                    else Inr s1)
          else disconnect_loop sock rest s)"

definition disconnect :: "string \<Rightarrow> server \<Rightarrow> error + server" where
  "disconnect sock s = disconnect_loop sock (games s) s"

subsection \<open>Events\<close>

text \<open>
  A request names the handler and carries its arguments, with what the clock, \<open>nanoid\<close>
  and \<open>Math.random\<close> return inside it. A request comes with the argument object its
  handler destructures; game ids and player names are strings, question and option ids
  are any JSON value. A timer event is the callback of a pending timeout; when it comes
  is up to the environment.
\<close>

datatype request =
    CreateGame json string "nat \<Rightarrow> rat"
  | StartGame string int
  | Next string int
  | Join string string
  | Answer string json json int

definition handle :: "string \<Rightarrow> bool \<Rightarrow> request \<Rightarrow> server \<Rightarrow> error + server" where
  "handle sock has_ack req s =
     (case req of
        CreateGame payload nid rnd \<Rightarrow> host_createGame sock has_ack payload nid rnd s
      | StartGame gameId now \<Rightarrow> host_startGame sock gameId now s
      | Next gameId now \<Rightarrow> host_next sock gameId now s
      | Join gameId nm \<Rightarrow> player_join sock has_ack gameId nm s
      | Answer gameId questionId optionId now \<Rightarrow>
          player_answer sock gameId questionId optionId now s)"

text \<open>
  \<open>wrapRateLimit\<close>: \<open>ip\<close> is the socket's handshake address, \<open>now\<close> the clock read by
  \<open>rateLimit\<close>, \<open>has_ack\<close> whether the last argument is a function.
\<close>

definition wrapRateLimit ::
    "string \<Rightarrow> string \<Rightarrow> int \<Rightarrow> bool \<Rightarrow> request \<Rightarrow> server \<Rightarrow> error + server" where
  "wrapRateLimit sock ip now has_ack req s =
     (let v = rateLimit (rateLimitMap s) ip now;
          s1 = s\<lparr>rateLimitMap := snd v\<rparr>
      in if \<not> fst v then
           Inr (if has_ack then emit sock (Ack (AckError ''Rate limit exceeded'')) s1 else s1)
         else handle sock has_ack req s1)"

datatype event =
    Request string string int bool request
  | Disconnect string
  | TimerFire nat

text \<open>A timeout that is not pending does not fire.\<close>

definition step :: "server \<Rightarrow> event \<Rightarrow> error + server" where
  "step s ev =
     (case ev of
        Request sock ip now has_ack req \<Rightarrow> wrapRateLimit sock ip now has_ack req s
      | Disconnect sock \<Rightarrow> disconnect sock s
      | TimerFire h \<Rightarrow>
          (case timers s h of
             None \<Rightarrow> Inr s
           | Some r \<Rightarrow> endRound r (clearTimeout h s)))"

fun run :: "server \<Rightarrow> event list \<Rightarrow> error + server" where
  "run s [] = Inr s"
| "run s (ev # evs) = (case step s ev of Inl e \<Rightarrow> Inl e | Inr s1 \<Rightarrow> run s1 evs)"

definition init_server :: server where
  "init_server =
     \<lparr>games = [], heap = Map.empty, next_ref = 0, timers = Map.empty, next_timer = 0,
      rateLimitMap = Map.empty, outbox = []\<rparr>"

inductive reachable :: "server \<Rightarrow> bool" where
  reachable_init: "reachable init_server"
| reachable_step: "reachable s \<Longrightarrow> step s ev = Inr s1 \<Longrightarrow> reachable s1"

subsection \<open>Example data\<close>



subsection \<open>The validator as the specification words it\<close>

text \<open>
  The definitions named \<open>spec_\<close> follow the specification's sentence, not the code: a
  record with a non-empty trimmed title and a non-empty list of questions, each with a
  non-empty trimmed id and text, at least two options with non-empty trimmed id and
  label, and a non-empty list of correct option ids, each a non-empty trimmed string.
\<close>

definition spec_nonempty_trimmed :: "json option \<Rightarrow> bool" where
  "spec_nonempty_trimmed v = (\<exists>s. v = Some (JStr s) \<and> trim s \<noteq> [])"

definition spec_option_ok :: "json \<Rightarrow> bool" where
  "spec_option_ok opt =
     (spec_nonempty_trimmed (field opt ''id'') \<and> spec_nonempty_trimmed (field opt ''label''))"

definition spec_question_ok :: "json \<Rightarrow> bool" where
  "spec_question_ok q =
     (spec_nonempty_trimmed (field q ''id'') \<and> spec_nonempty_trimmed (field q ''text'')
      \<and> (\<exists>opts. field q ''options'' = Some (JArr opts) \<and> 2 \<le> length opts
            \<and> (\<forall>opt \<in> set opts. spec_option_ok opt))
      \<and> (\<exists>cids. field q ''correctOptionIds'' = Some (JArr cids) \<and> cids \<noteq> []
            \<and> (\<forall>cid \<in> set cids. spec_nonempty_trimmed (Some cid))))"

definition spec_valid_quiz :: "json \<Rightarrow> bool" where
  "spec_valid_quiz payload =
     ((\<exists>kvs. payload = JObj kvs)
      \<and> spec_nonempty_trimmed (field payload ''title'')
      \<and> (\<exists>qs. field payload ''questions'' = Some (JArr qs) \<and> qs \<noteq> []
            \<and> (\<forall>q \<in> set qs. spec_question_ok q)))"

text \<open>The ids of a question's options and its correct ids, for referential integrity.\<close>

definition option_ids :: "json \<Rightarrow> string list" where
  "option_ids q = map (\<lambda>opt. str_of (field opt ''id'')) (elements (field q ''options''))"

definition correct_ids :: "json \<Rightarrow> string list" where
  "correct_ids q = map (\<lambda>c. str_of (Some c)) (elements (field q ''correctOptionIds''))"

definition ex_json_question :: "string \<Rightarrow> string \<Rightarrow> json" where
  "ex_json_question qid correct =
     JObj [(''id'', JStr qid), (''text'', JStr ''2 + 2?''),
           (''options'', JArr [JObj [(''id'', JStr ''a''), (''label'', JStr ''3'')],
                              JObj [(''id'', JStr ''b''), (''label'', JStr ''4'')]]),
           (''correctOptionIds'', JArr [JStr correct])]"

definition ex_payload :: "json list \<Rightarrow> json" where
  "ex_payload qs = JObj [(''title'', JStr ''Sums''), (''questions'', JArr qs)]"

subsection \<open>The rate limiter over a sequence of events\<close>

text \<open>
  The time stamps the table holds for a source, the table after a sequence of admission
  checks (each event is the source's address and the clock reading), and the readings of
  one source in such a sequence.
\<close>

definition stamps :: "(string \<rightharpoonup> int list) \<Rightarrow> string \<Rightarrow> int list" where
  "stamps m ip = (case m ip of None \<Rightarrow> [] | Some arr \<Rightarrow> arr)"

fun rateLimit_run :: "(string \<rightharpoonup> int list) \<Rightarrow> (string \<times> int) list \<Rightarrow> (string \<rightharpoonup> int list)" where
  "rateLimit_run m [] = m"
| "rateLimit_run m (e # evs) = rateLimit_run (snd (rateLimit m (fst e) (snd e))) evs"

definition events_of :: "string \<Rightarrow> (string \<times> int) list \<Rightarrow> int list" where
  "events_of ip evs = map snd (filter (\<lambda>e. fst e = ip) evs)"

definition ex_burst :: "(string \<times> int) list" where
  "ex_burst = map (Pair ''10.0.0.7'')
     [1, 2, 3, 4, 5, 6, 7, 8, 9, 10, 11, 12, 13, 14, 15, 16, 17, 18, 19, 20,
      21, 22, 23, 24, 25, 26, 27, 28, 29, 30]"

subsection \<open>Invariants of the live sessions\<close>

text \<open>
  What holds of a game that the registry lists: before the first question the game is
  not started and has no round; a game with a round has its current index inside the
  question list. \<open>reg_ok\<close> is the bookkeeping of the registry: distinct ids, references the
  server has handed out, each to a game that carries the id it is listed under.
\<close>

definition game_inv :: "game \<Rightarrow> bool" where
  "game_inv g =
     ((currentIndex g = - 1 \<longrightarrow> \<not> started g \<and> round' g = None)
      \<and> (round' g \<noteq> None \<longrightarrow> 0 \<le> currentIndex g \<and> currentIndex g < int (length (questions g))))"

definition reg_ok :: "server \<Rightarrow> bool" where
  "reg_ok s =
     (distinct (map fst (games s))
      \<and> (\<forall>e \<in> set (games s). snd e < next_ref s
            \<and> (\<exists>g. heap s (snd e) = Some g \<and> game_id g = fst e \<and> - 1 \<le> currentIndex g)))"

definition live_inv :: "server \<Rightarrow> bool" where
  "live_inv s = (\<forall>e \<in> set (games s). \<forall>g. heap s (snd e) = Some g \<longrightarrow> game_inv g)"

definition others_inv :: "nat \<Rightarrow> server \<Rightarrow> bool" where
  "others_inv r s =
     (\<forall>e \<in> set (games s). snd e \<noteq> r \<longrightarrow> (\<forall>g. heap s (snd e) = Some g \<longrightarrow> game_inv g))"

subsection \<open>Example runs\<close>

text \<open>
  \<open>after evs\<close> is the server after the events \<open>evs\<close>, from the start; the examples are a
  host \<open>h\<close> who creates the game \<open>ABCD\<close> with one question, players who join, and the
  start of the game at time 3000.
\<close>

definition after :: "event list \<Rightarrow> server" where
  "after evs = (case run init_server evs of Inl e \<Rightarrow> init_server | Inr s \<Rightarrow> s)"

definition ex_create :: event where
  "ex_create = Request ''h'' ''10.0.0.1'' 1000 True
     (CreateGame (ex_payload [ex_json_question ''q1'' ''b'']) ''ABCD'' (\<lambda>i. 0))"

definition ex_create2 :: event where
  "ex_create2 = Request ''h'' ''10.0.0.1'' 1000 True
     (CreateGame (ex_payload [ex_json_question ''q1'' ''b'', ex_json_question ''q2'' ''a''])
        ''ABCD'' (\<lambda>i. 0))"

definition ex_join :: "string \<Rightarrow> string \<Rightarrow> event" where
  "ex_join sock nm = Request sock ''10.0.0.2'' 2000 True (Join ''ABCD'' nm)"

definition ex_start :: event where
  "ex_start = Request ''h'' ''10.0.0.1'' 3000 False (StartGame ''ABCD'' 3000)"

definition ex_answer_event :: "string \<Rightarrow> string \<Rightarrow> int \<Rightarrow> event" where
  "ex_answer_event sock opt t =
     Request sock ''10.0.0.2'' t False (Answer ''ABCD'' (JStr ''q1'') (JStr opt) t)"

definition ex_two_players :: "event list" where
  "ex_two_players =
     [ex_create, ex_join ''p1'' ''ann'', ex_join ''p2'' ''bob'', ex_start,
      ex_answer_event ''p1'' ''b'' 5000]"

definition ex_host_leaves :: "event list" where
  "ex_host_leaves = [ex_create, ex_join ''p1'' ''ann'', ex_start, Disconnect ''h'']"

definition ex_last_next :: "event list" where
  "ex_last_next =
     [ex_create, ex_start, Request ''h'' ''10.0.0.1'' 4000 False (Next ''ABCD'' 4000)]"

text \<open>
  Three more runs. The awaited player \<open>p2\<close> leaves during the round and \<open>p1\<close> answers
  afterwards. The wall clock is set back after the round has started at 3000, and the
  only player answers at 1000. Player \<open>p1\<close> answers at the deadline 23000, before the
  round's timer has fired.
\<close>

definition ex_leave_then_answer :: "event list" where
  "ex_leave_then_answer =
     [ex_create, ex_join ''p1'' ''ann'', ex_join ''p2'' ''bob'', ex_start, Disconnect ''p2'',
      ex_answer_event ''p1'' ''b'' 5000]"

definition ex_clock_back :: "event list" where
  "ex_clock_back =
     [ex_create, ex_join ''p1'' ''ann'', ex_start,
      ex_answer_event ''p1'' ''b'' 1000]"

definition ex_at_deadline :: "event list" where
  "ex_at_deadline =
     [ex_create, ex_join ''p1'' ''ann'', ex_join ''p2'' ''bob'', ex_start,
      ex_answer_event ''p1'' ''b'' 23000]"

subsection \<open>Reveals sent so far\<close>

definition is_reveal :: "message \<Rightarrow> bool" where
  "is_reveal msg = (case msg of QuestionReveal _ _ _ _ \<Rightarrow> True | _ \<Rightarrow> False)"

definition reveals :: "server \<Rightarrow> message list" where
  "reveals s = filter is_reveal (map snd (outbox s))"

subsection \<open>Invariants of the timers\<close>

text \<open>
  Timer handles are handed out in increasing order: the timer of every round of every
  game object, and every pending timer, is older than the next handle.
\<close>

definition timers_fresh :: "server \<Rightarrow> bool" where
  "timers_fresh s =
     (\<forall>r g rd. heap s r = Some g \<longrightarrow> round' g = Some rd \<longrightarrow> timer rd < next_timer s)"

definition pending_fresh :: "server \<Rightarrow> bool" where
  "pending_fresh s = (\<forall>h. timers s h \<noteq> None \<longrightarrow> h < next_timer s)"

subsection \<open>Invariant of the rounds\<close>

text \<open>
  What holds of every game object the server has built: the time limit of each question
  lies between 5 and 90 seconds, and a round of the game ends one time limit of the
  current question after it started.
\<close>

definition round_ok :: "game \<Rightarrow> bool" where
  "round_ok g =
     ((\<forall>q \<in> set (questions g). 5 \<le> timeLimitSeconds q \<and> timeLimitSeconds q \<le> 90)
      \<and> (\<forall>rd q. round' g = Some rd \<longrightarrow> question_at g (currentIndex g) = Some q \<longrightarrow>
             endMs rd = of_int (startMs rd) + timeLimitSeconds q * 1000))"

definition rounds_ok :: "server \<Rightarrow> bool" where
  "rounds_ok s = (\<forall>r g. heap s r = Some g \<longrightarrow> round_ok g)"

section \<open>Properties\<close>

subsection \<open>Scoring\<close>

lemma score_player_score:
  "score (score_player q e p) = score p +
     (if selectedOptionId p \<noteq> JNull \<and> includes' (correctOptionIds q) (selectedOptionId p)
         \<and> answeredAtMs p \<noteq> None \<and> answeredAtMs p \<noteq> Some 0
      then \<lfloor>500 + 500 * (max 0 (e - of_int (the (answeredAtMs p))) / (timeLimitSeconds q * 1000))\<rfloor>
      else 0)"
  by (auto simp: score_player_def Let_def)

lemma points_lower:
  fixes tl e :: rat
  assumes "0 < tl"
  shows "500 \<le> \<lfloor>500 + 500 * (max 0 (e - of_int t) / (tl * 1000))\<rfloor>"
proof -
  have "0 \<le> max 0 (e - of_int t) / (tl * 1000)" using assms by simp
  then have "(500::rat) \<le> 500 + 500 * (max 0 (e - of_int t) / (tl * 1000))" by simp
  then show ?thesis by (simp add: le_floor_iff)
qed

lemma points_upper:
  fixes tl e :: rat
  assumes "0 < tl" and "e - tl * 1000 \<le> of_int t"
  shows "\<lfloor>500 + 500 * (max 0 (e - of_int t) / (tl * 1000))\<rfloor> \<le> 1000"
proof -
  have "max 0 (e - of_int t) \<le> tl * 1000" using assms by (simp add: max_def)
  then have "max 0 (e - of_int t) / (tl * 1000) \<le> 1" using assms by (simp add: divide_le_eq)
  then have "500 + 500 * (max 0 (e - of_int t) / (tl * 1000)) \<le> (1000::rat)" by simp
  then have "\<lfloor>500 + 500 * (max 0 (e - of_int t) / (tl * 1000))\<rfloor> \<le> \<lfloor>1000::rat\<rfloor>"
    by (rule floor_mono)
  then show ?thesis by simp
qed






subsection \<open>The quiz validator\<close>

lemma blank_iff: "blank v \<longleftrightarrow> \<not> spec_nonempty_trimmed v"
  by (auto simp: blank_def spec_nonempty_trimmed_def typeof_def str_of_def
      split: option.splits json.splits)

lemma nonempty_field_obj:
  "spec_nonempty_trimmed (field v k) \<Longrightarrow> truthy (Some v) \<and> typeof (Some v) = ''object''"
  by (auto simp: spec_nonempty_trimmed_def field_def truthy_def typeof_def split: json.splits)

lemma validateOptions_iff: "validateOptions opts \<longleftrightarrow> (\<forall>opt \<in> set opts. spec_option_ok opt)"
  by (induction opts) (auto simp: blank_iff spec_option_ok_def dest: nonempty_field_obj)

lemma validateCorrectIds_iff:
  "validateCorrectIds cids \<longleftrightarrow> (\<forall>cid \<in> set cids. spec_nonempty_trimmed (Some cid))"
  by (induction cids) (auto simp: blank_iff)

lemma isArray_iff: "isArray v \<longleftrightarrow> (\<exists>xs. v = Some (JArr xs))"
  by (auto simp: isArray_def split: option.splits json.splits)

lemma elements_arr: "elements (Some (JArr xs)) = xs"
  by (simp add: elements_def)

lemma question_ok_iff:
  "spec_question_ok q \<longleftrightarrow>
     truthy (Some q) \<and> typeof (Some q) = ''object'' \<and> \<not> blank (field q ''id'')
     \<and> \<not> blank (field q ''text'')
     \<and> isArray (field q ''options'') \<and> 2 \<le> length (elements (field q ''options''))
     \<and> validateOptions (elements (field q ''options''))
     \<and> isArray (field q ''correctOptionIds'') \<and> length (elements (field q ''correctOptionIds'')) \<noteq> 0
     \<and> validateCorrectIds (elements (field q ''correctOptionIds''))"
  by (auto simp: spec_question_ok_def blank_iff validateOptions_iff validateCorrectIds_iff
      isArray_iff elements_arr dest: nonempty_field_obj)

lemma validateQuestions_Cons:
  "validateQuestions (q # qs) \<longleftrightarrow> spec_question_ok q \<and> validateQuestions qs"
  unfolding question_ok_iff by (auto simp: not_less)

lemma validateQuestions_iff: "validateQuestions qs \<longleftrightarrow> (\<forall>q \<in> set qs. spec_question_ok q)"
proof (induction qs)
  case Nil
  show ?case by simp
next
  case (Cons q qs)
  show ?case unfolding validateQuestions_Cons Cons.IH by simp
qed

lemma validate_iff: "validateQuizPayload payload \<longleftrightarrow> spec_valid_quiz payload"
proof -
  have obj: "(\<exists>kvs. payload = JObj kvs)" if "spec_nonempty_trimmed (field payload ''title'')"
    using that by (auto simp: spec_nonempty_trimmed_def field_def split: json.splits)
  show ?thesis
    unfolding validateQuizPayload_def spec_valid_quiz_def
    by (auto simp: blank_iff validateQuestions_iff isArray_iff elements_arr
        dest: nonempty_field_obj obj)
qed

lemmas validator_eval =
  validateQuizPayload_def ex_payload_def ex_json_question_def field_def truthy_def
  typeof_def isArray_def elements_def blank_def str_of_def trim_def is_ws_def

text \<open>
  C8. \<open>validateQuizPayload\<close> accepts a payload exactly when the payload is as the
  specification words it (\<open>spec_valid_quiz\<close>). It does not compare the correct option ids
  with the ids of the options: the payload whose only question has the options \<open>a\<close> and
  \<open>b\<close> and the correct id \<open>zzz\<close> is accepted. The validator is a function from the
  payload to a truth value: it has no state to change.
\<close>

theorem validateQuizPayload_structural:
  "(validateQuizPayload payload \<longleftrightarrow> spec_valid_quiz payload)
   \<and> validateQuizPayload (ex_payload [ex_json_question ''q1'' ''zzz''])
   \<and> \<not> set (correct_ids (ex_json_question ''q1'' ''zzz''))
         \<subseteq> set (option_ids (ex_json_question ''q1'' ''zzz''))"
proof (intro conjI)
  show "validateQuizPayload payload \<longleftrightarrow> spec_valid_quiz payload"
    by (rule validate_iff)
  show "validateQuizPayload (ex_payload [ex_json_question ''q1'' ''zzz''])"
    by (simp add: validator_eval)
  show "\<not> set (correct_ids (ex_json_question ''q1'' ''zzz''))
         \<subseteq> set (option_ids (ex_json_question ''q1'' ''zzz''))"
    by (simp add: correct_ids_def option_ids_def ex_json_question_def field_def elements_def
        str_of_def)
qed

theorem validateQuizPayload_structural_witness:
  "spec_valid_quiz (ex_payload [ex_json_question ''q1'' ''b''])
   \<and> \<not> spec_valid_quiz (ex_payload [])
   \<and> \<not> spec_valid_quiz (ex_payload [ex_json_question ''q1'' '' ''])"
proof -
  have "validateQuizPayload (ex_payload [ex_json_question ''q1'' ''b''])"
    by (simp add: validator_eval)
  moreover have "\<not> validateQuizPayload (ex_payload [])"
    by (simp add: validator_eval)
  moreover have "\<not> validateQuizPayload (ex_payload [ex_json_question ''q1'' '' ''])"
    by (simp add: validator_eval)
  ultimately show ?thesis
    using validateQuizPayload_structural [of "ex_payload [ex_json_question ''q1'' ''b'']"]
      validateQuizPayload_structural [of "ex_payload []"]
      validateQuizPayload_structural [of "ex_payload [ex_json_question ''q1'' '' '']"]
    by blast
qed

subsection \<open>The rate limiter\<close>

lemma rateLimit_stamps:
  "stamps (snd (rateLimit m ip now)) a =
     (if a = ip then shift_old now (stamps m ip) @ [now] else stamps m a)"
  by (auto simp: rateLimit_def stamps_def Let_def split: option.splits)

lemma rateLimit_verdict:
  "fst (rateLimit m ip now) \<longleftrightarrow> length (shift_old now (stamps m ip)) < RATE_LIMIT_MAX"
  by (auto simp: rateLimit_def stamps_def Let_def RATE_LIMIT_MAX_def split: option.splits)

lemma shift_old_filter:
  "sorted arr \<Longrightarrow> shift_old now arr = filter (\<lambda>t. now - RATE_LIMIT_WINDOW_MS \<le> t) arr"
proof (induction arr)
  case Nil
  show ?case by simp
next
  case (Cons a arr)
  show ?case
  proof (cases "a < now - RATE_LIMIT_WINDOW_MS")
    case True
    then show ?thesis using Cons by simp
  next
    case False
    then have "\<forall>t \<in> set (a # arr). now - RATE_LIMIT_WINDOW_MS \<le> t"
      using Cons.prems by auto
    then have "filter (\<lambda>t. now - RATE_LIMIT_WINDOW_MS \<le> t) (a # arr) = a # arr"
      by (simp only: filter_True)
    then show ?thesis using False by simp
  qed
qed

lemma run_stamps:
  "sorted (stamps m ip @ events_of ip evs) \<Longrightarrow>
   sorted (stamps (rateLimit_run m evs) ip)
   \<and> (\<forall>now. (\<forall>t \<in> set (stamps m ip @ events_of ip evs). t \<le> now) \<longrightarrow>
        filter (\<lambda>t. now - RATE_LIMIT_WINDOW_MS \<le> t) (stamps (rateLimit_run m evs) ip)
        = filter (\<lambda>t. now - RATE_LIMIT_WINDOW_MS \<le> t) (stamps m ip @ events_of ip evs))"
proof (induction evs arbitrary: m)
  case Nil
  then show ?case by (simp add: events_of_def)
next
  case (Cons e evs)
  let ?m1 = "snd (rateLimit m (fst e) (snd e))"
  show ?case
  proof (cases "fst e = ip")
    case False
    then have st: "stamps ?m1 ip = stamps m ip" by (simp add: rateLimit_stamps)
    have ev: "events_of ip (e # evs) = events_of ip evs" using False by (simp add: events_of_def)
    show ?thesis using Cons.IH [of ?m1] Cons.prems unfolding st ev by simp
  next
    case True
    have ev: "events_of ip (e # evs) = snd e # events_of ip evs"
      using True by (simp add: events_of_def)
    have sa: "sorted (stamps m ip)" and le: "\<forall>t \<in> set (stamps m ip). t \<le> snd e"
      and rest: "sorted (snd e # events_of ip evs)"
      using Cons.prems unfolding ev by (auto simp: sorted_append)
    have st: "stamps ?m1 ip = filter (\<lambda>t. snd e - RATE_LIMIT_WINDOW_MS \<le> t) (stamps m ip) @ [snd e]"
      using True by (simp add: rateLimit_stamps shift_old_filter [OF sa])
    have s1: "sorted (stamps ?m1 ip @ events_of ip evs)"
      unfolding st using sa le rest
      by (auto simp: sorted_append sorted_filter [where f = "\<lambda>x. x", simplified] intro: order_trans)
    note ih = Cons.IH [OF s1]
    show ?thesis
    proof (intro conjI allI impI)
      show "sorted (stamps (rateLimit_run m (e # evs)) ip)" using ih by simp
    next
      fix now
      assume b: "\<forall>t \<in> set (stamps m ip @ events_of ip (e # evs)). t \<le> now"
      then have b1: "\<forall>t \<in> set (stamps ?m1 ip @ events_of ip evs). t \<le> now"
        unfolding st ev by auto
      have en: "snd e \<le> now" using b unfolding ev by simp
      have "filter (\<lambda>t. now - RATE_LIMIT_WINDOW_MS \<le> t) (stamps (rateLimit_run m (e # evs)) ip)
          = filter (\<lambda>t. now - RATE_LIMIT_WINDOW_MS \<le> t) (stamps ?m1 ip @ events_of ip evs)"
        using ih b1 by simp
      also have "\<dots> = filter (\<lambda>t. now - RATE_LIMIT_WINDOW_MS \<le> t) (stamps m ip @ events_of ip (e # evs))"
        unfolding st ev using en by (auto intro: filter_cong)
      finally show "filter (\<lambda>t. now - RATE_LIMIT_WINDOW_MS \<le> t) (stamps (rateLimit_run m (e # evs)) ip)
          = filter (\<lambda>t. now - RATE_LIMIT_WINDOW_MS \<le> t) (stamps m ip @ events_of ip (e # evs))" .
    qed
  qed
qed

lemma window_verdict:
  assumes "sorted (stamps m ip @ events_of ip evs @ [now])"
  shows "fst (rateLimit (rateLimit_run m evs) ip now) \<longleftrightarrow>
     length (filter (\<lambda>t. now - RATE_LIMIT_WINDOW_MS \<le> t) (stamps m ip @ events_of ip evs))
       < RATE_LIMIT_MAX"
proof -
  have s: "sorted (stamps m ip @ events_of ip evs)"
    and le: "\<forall>t \<in> set (stamps m ip @ events_of ip evs). t \<le> now"
    using assms by (auto simp: sorted_append)
  from run_stamps [OF s] le
  have "sorted (stamps (rateLimit_run m evs) ip)"
    and "filter (\<lambda>t. now - RATE_LIMIT_WINDOW_MS \<le> t) (stamps (rateLimit_run m evs) ip)
        = filter (\<lambda>t. now - RATE_LIMIT_WINDOW_MS \<le> t) (stamps m ip @ events_of ip evs)"
    by blast+
  then show ?thesis by (simp add: rateLimit_verdict shift_old_filter)
qed

lemma shift_old_all:
  "\<forall>t \<in> set arr. t < now - RATE_LIMIT_WINDOW_MS \<Longrightarrow> shift_old now arr = []"
  by (induction arr) simp_all

lemma reset:
  assumes "\<forall>t \<in> set (stamps m ip). t < now - RATE_LIMIT_WINDOW_MS"
  shows "fst (rateLimit m ip now) \<and> stamps (snd (rateLimit m ip now)) ip = [now]"
  using assms by (simp add: rateLimit_verdict rateLimit_stamps shift_old_all RATE_LIMIT_MAX_def)

lemma rejected:
  assumes "\<not> fst (rateLimit (rateLimitMap s) ip now)"
  shows "wrapRateLimit sock ip now has_ack req s =
     Inr (send_ack has_ack sock (AckError ''Rate limit exceeded'')
        (s\<lparr>rateLimitMap := snd (rateLimit (rateLimitMap s) ip now)\<rparr>))"
  using assms by (simp add: wrapRateLimit_def Let_def send_ack_def)

lemma admitted:
  assumes "fst (rateLimit (rateLimitMap s) ip now)"
  shows "wrapRateLimit sock ip now has_ack req s =
     handle sock has_ack req (s\<lparr>rateLimitMap := snd (rateLimit (rateLimitMap s) ip now)\<rparr>)"
  using assms by (simp add: wrapRateLimit_def Let_def)


lemma events_of_same: "events_of ip (map (Pair ip) ts) = ts"
  by (induction ts) (simp_all add: events_of_def)

lemma burst_verdict:
  assumes "sorted (stamps m ip @ ts)"
    and "\<forall>t \<in> set (stamps m ip). t < hd ts - RATE_LIMIT_WINDOW_MS"
    and "last ts \<le> hd ts + RATE_LIMIT_WINDOW_MS"
    and "i < length ts"
  shows "fst (rateLimit (rateLimit_run m (map (Pair ip) (take i ts))) ip (ts ! i))
     \<longleftrightarrow> i < RATE_LIMIT_MAX"
proof -
  have ne: "ts \<noteq> []" using assms(4) by auto
  have st: "sorted ts" using assms(1) by (simp add: sorted_append)
  have hd_le: "hd ts \<le> t" if "t \<in> set ts" for t
    using st that ne by (cases ts) auto
  have le_last: "t \<le> last ts" if "t \<in> set ts" for t
    using st that ne by (metis in_set_conv_nth last_conv_nth sorted_nth_mono
        Suc_pred' length_greater_0_conv less_Suc_eq_le diff_less zero_less_one)
  have ti: "ts ! i \<in> set ts" using assms(4) by simp
  have split: "take (Suc i) ts = take i ts @ [ts ! i]"
    using assms(4) by (rule take_Suc_conv_app_nth)
  have "sorted (stamps m ip @ take (Suc i) ts)"
    using assms(1) by (auto simp: sorted_append dest: in_set_takeD intro: sorted_wrt_take)
  then have s: "sorted (stamps m ip @ events_of ip (map (Pair ip) (take i ts)) @ [ts ! i])"
    unfolding events_of_same split .
  have old: "filter (\<lambda>t. ts ! i - RATE_LIMIT_WINDOW_MS \<le> t) (stamps m ip) = []"
  proof -
    have "\<not> ts ! i - RATE_LIMIT_WINDOW_MS \<le> t" if "t \<in> set (stamps m ip)" for t
      using assms(2) that hd_le [OF ti] by fastforce
    then show ?thesis by (simp add: filter_empty_conv)
  qed
  have new: "filter (\<lambda>t. ts ! i - RATE_LIMIT_WINDOW_MS \<le> t) (take i ts) = take i ts"
  proof -
    have "ts ! i - RATE_LIMIT_WINDOW_MS \<le> t" if "t \<in> set (take i ts)" for t
      using hd_le [of t] le_last [OF ti] assms(3) that by (auto dest: in_set_takeD)
    then show ?thesis by (simp add: filter_id_conv)
  qed
  have "length (filter (\<lambda>t. ts ! i - RATE_LIMIT_WINDOW_MS \<le> t)
      (stamps m ip @ events_of ip (map (Pair ip) (take i ts)))) = i"
    unfolding events_of_same using old new assms(4) by simp
  then show ?thesis using window_verdict [OF s] by simp
qed

text \<open>
  C7, as stated, fails. The stamp of an event is recorded before the verdict, so a
  rejected event counts in the windows that follow, and the 31st event of one window is
  among the first 30 of another. Here one source sends events at 1, 2, ..., 30, then at
  31 and at 10002. The 10 seconds from 2 to 10002 hold 31 of these events; the 30th of
  them, the one at 31, is rejected. The one at 10002 is rejected as well: the rejected
  event at 31 is one of the 30 that count against it.
\<close>

theorem rate_limit_window_counterexample:
  "length (filter (\<lambda>t. 2 \<le> t \<and> t \<le> 10002) (map snd ex_burst @ [31, 10002])) = 31
   \<and> filter (\<lambda>t. 2 \<le> t \<and> t \<le> 10002) (map snd ex_burst @ [31, 10002]) ! 29 = 31
   \<and> \<not> fst (rateLimit (rateLimit_run Map.empty ex_burst) ''10.0.0.7'' 31)
   \<and> \<not> fst (rateLimit (rateLimit_run Map.empty (ex_burst @ [(''10.0.0.7'', 31)]))
         ''10.0.0.7'' 10002)"
  by (simp add: ex_burst_def rateLimit_def Let_def RATE_LIMIT_WINDOW_MS_def RATE_LIMIT_MAX_def)

text \<open>
  C7, amended. Take the events of one source, with a clock that does not run backwards.
  An event is admitted exactly when fewer than 30 earlier events of that source, admitted
  or rejected, lie in the 10 seconds that end at it. When every recorded stamp of the
  source is older than 10 seconds, the event is admitted and the source's record is the
  one a first event leaves: the full ceiling is available again. A rejected event does
  not reach its handler: the wrapper records the stamp and answers the acknowledgement
  callback, if there is one; an admitted event is handed to the handler. So of the events
  \<open>ts\<close> of a source that come within 10 seconds, after 10 seconds without any, the first
  30 are admitted and every later one is rejected.
\<close>

theorem rate_limit_window:
  "(sorted (stamps m ip @ events_of ip evs @ [now]) \<longrightarrow>
      (fst (rateLimit (rateLimit_run m evs) ip now) \<longleftrightarrow>
       length (filter (\<lambda>t. now - RATE_LIMIT_WINDOW_MS \<le> t) (stamps m ip @ events_of ip evs))
         < RATE_LIMIT_MAX))
   \<and> ((\<forall>t \<in> set (stamps m ip). t < now - RATE_LIMIT_WINDOW_MS) \<longrightarrow>
        fst (rateLimit m ip now) \<and> stamps (snd (rateLimit m ip now)) ip = [now])
   \<and> (\<not> fst (rateLimit (rateLimitMap s) ip now) \<longrightarrow>
        wrapRateLimit sock ip now has_ack req s =
          Inr (send_ack has_ack sock (AckError ''Rate limit exceeded'')
                 (s\<lparr>rateLimitMap := snd (rateLimit (rateLimitMap s) ip now)\<rparr>)))
   \<and> (fst (rateLimit (rateLimitMap s) ip now) \<longrightarrow>
        wrapRateLimit sock ip now has_ack req s =
          handle sock has_ack req (s\<lparr>rateLimitMap := snd (rateLimit (rateLimitMap s) ip now)\<rparr>))
   \<and> (sorted (stamps m ip @ ts)
        \<and> (\<forall>t \<in> set (stamps m ip). t < hd ts - RATE_LIMIT_WINDOW_MS)
        \<and> last ts \<le> hd ts + RATE_LIMIT_WINDOW_MS \<and> i < length ts \<longrightarrow>
        (fst (rateLimit (rateLimit_run m (map (Pair ip) (take i ts))) ip (ts ! i))
         \<longleftrightarrow> i < RATE_LIMIT_MAX))"
  using window_verdict [of m ip evs now] reset [of m ip now]
    rejected [of s ip now sock has_ack req] admitted [of s ip now sock has_ack req]
    burst_verdict [of m ip ts i]
  by blast

lemma ex_stamps: "stamps (rateLimit_run Map.empty ex_burst) ''10.0.0.7'' =
  [1, 2, 3, 4, 5, 6, 7, 8, 9, 10, 11, 12, 13, 14, 15, 16, 17, 18, 19, 20,
      21, 22, 23, 24, 25, 26, 27, 28, 29, 30]"
  by (simp add: ex_burst_def rateLimit_def stamps_def Let_def RATE_LIMIT_WINDOW_MS_def RATE_LIMIT_MAX_def)

theorem rate_limit_window_witness:
  "sorted (stamps Map.empty ''10.0.0.7'' @ events_of ''10.0.0.7'' ex_burst @ [31])
   \<and> last (map snd ex_burst @ [31]) \<le> hd (map snd ex_burst @ [31]) + RATE_LIMIT_WINDOW_MS
   \<and> fst (rateLimit (rateLimit_run Map.empty
        (map (Pair ''10.0.0.7'') (take 29 (map snd ex_burst @ [31])))) ''10.0.0.7''
        ((map snd ex_burst @ [31]) ! 29))
   \<and> \<not> fst (rateLimit (rateLimit_run Map.empty
        (map (Pair ''10.0.0.7'') (take 30 (map snd ex_burst @ [31])))) ''10.0.0.7''
        ((map snd ex_burst @ [31]) ! 30))
   \<and> \<not> fst (rateLimit (rateLimit_run Map.empty ex_burst) ''10.0.0.7'' 31)
   \<and> fst (rateLimit (rateLimit_run Map.empty (butlast ex_burst)) ''10.0.0.7'' 30)
   \<and> fst (rateLimit (rateLimit_run Map.empty ex_burst) ''10.0.0.7'' 10031)
   \<and> wrapRateLimit ''s1'' ''10.0.0.7'' 31 True (Join ''ABCD'' ''ann'')
        (init_server\<lparr>rateLimitMap := rateLimit_run Map.empty ex_burst\<rparr>)
      = Inr (send_ack True ''s1'' (AckError ''Rate limit exceeded'')
          (init_server\<lparr>rateLimitMap :=
             snd (rateLimit (rateLimit_run Map.empty ex_burst) ''10.0.0.7'' 31)\<rparr>))"
proof -
  have a: "sorted (stamps Map.empty ''10.0.0.7'' @ events_of ''10.0.0.7'' ex_burst @ [31])"
    by (simp add: stamps_def events_of_def ex_burst_def)
  have b: "sorted (stamps Map.empty ''10.0.0.7'' @ events_of ''10.0.0.7'' (butlast ex_burst) @ [30])"
    by (simp add: stamps_def events_of_def ex_burst_def)
  have c: "length (filter (\<lambda>t. 31 - RATE_LIMIT_WINDOW_MS \<le> t)
      (stamps Map.empty ''10.0.0.7'' @ events_of ''10.0.0.7'' ex_burst)) = 30"
    by (simp add: stamps_def events_of_def ex_burst_def RATE_LIMIT_WINDOW_MS_def)
  have d: "length (filter (\<lambda>t. 30 - RATE_LIMIT_WINDOW_MS \<le> t)
      (stamps Map.empty ''10.0.0.7'' @ events_of ''10.0.0.7'' (butlast ex_burst))) = 29"
    by (simp add: stamps_def events_of_def ex_burst_def RATE_LIMIT_WINDOW_MS_def)
  have e: "\<forall>t \<in> set (stamps (rateLimit_run Map.empty ex_burst) ''10.0.0.7'').
      t < 10031 - RATE_LIMIT_WINDOW_MS"
    unfolding ex_stamps by (simp add: RATE_LIMIT_WINDOW_MS_def)
  have n: "\<not> fst (rateLimit (rateLimit_run Map.empty ex_burst) ''10.0.0.7'' 31)"
    using rate_limit_window [of Map.empty "''10.0.0.7''" ex_burst 31] a c
    by (simp add: RATE_LIMIT_MAX_def)
  have y: "fst (rateLimit (rateLimit_run Map.empty (butlast ex_burst)) ''10.0.0.7'' 30)"
    using rate_limit_window [of Map.empty "''10.0.0.7''" "butlast ex_burst" 30] b d
    by (simp add: RATE_LIMIT_MAX_def)
  have r: "fst (rateLimit (rateLimit_run Map.empty ex_burst) ''10.0.0.7'' 10031)"
    using rate_limit_window [of "rateLimit_run Map.empty ex_burst" "''10.0.0.7''" "[]" 10031] e
    by blast
  have w: "wrapRateLimit ''s1'' ''10.0.0.7'' 31 True (Join ''ABCD'' ''ann'')
        (init_server\<lparr>rateLimitMap := rateLimit_run Map.empty ex_burst\<rparr>)
      = Inr (send_ack True ''s1'' (AckError ''Rate limit exceeded'')
          (init_server\<lparr>rateLimitMap :=
             snd (rateLimit (rateLimit_run Map.empty ex_burst) ''10.0.0.7'' 31)\<rparr>))"
    using rate_limit_window [where s = "init_server\<lparr>rateLimitMap := rateLimit_run Map.empty ex_burst\<rparr>"
        and ip = "''10.0.0.7''" and now = 31 and sock = "''s1''" and has_ack = True
        and req = "Join ''ABCD'' ''ann''"] n
    by simp
  have bs: "sorted (stamps Map.empty ''10.0.0.7'' @ (map snd ex_burst @ [31]))"
    by (simp add: stamps_def ex_burst_def)
  have bq: "\<forall>t \<in> set (stamps Map.empty ''10.0.0.7'').
      t < hd (map snd ex_burst @ [31]) - RATE_LIMIT_WINDOW_MS"
    by (simp add: stamps_def)
  have bl: "last (map snd ex_burst @ [31]) \<le> hd (map snd ex_burst @ [31]) + RATE_LIMIT_WINDOW_MS"
    by (simp add: ex_burst_def RATE_LIMIT_WINDOW_MS_def)
  have b29: "fst (rateLimit (rateLimit_run Map.empty
        (map (Pair ''10.0.0.7'') (take 29 (map snd ex_burst @ [31])))) ''10.0.0.7''
        ((map snd ex_burst @ [31]) ! 29))"
    using rate_limit_window [where m = Map.empty and ip = "''10.0.0.7''"
        and ts = "map snd ex_burst @ [31]" and i = 29] bs bq bl
    by (simp add: RATE_LIMIT_MAX_def ex_burst_def)
  have b30: "\<not> fst (rateLimit (rateLimit_run Map.empty
        (map (Pair ''10.0.0.7'') (take 30 (map snd ex_burst @ [31])))) ''10.0.0.7''
        ((map snd ex_burst @ [31]) ! 30))"
    using rate_limit_window [where m = Map.empty and ip = "''10.0.0.7''"
        and ts = "map snd ex_burst @ [31]" and i = 30] bs bq bl
    by (simp add: RATE_LIMIT_MAX_def ex_burst_def)
  show ?thesis using a n y r w bl b29 b30 by blast
qed

subsection \<open>Every handler keeps the invariants\<close>

lemma reg_ok_same_ref:
  assumes "reg_ok s" and "(k1, r) \<in> set (games s)" and "(k2, r) \<in> set (games s)"
  shows "k1 = k2"
proof -
  from assms(1,2) obtain g where "heap s r = Some g" and "game_id g = k1"
    unfolding reg_ok_def by force
  moreover from assms(1,3) obtain g' where "heap s r = Some g'" and "game_id g' = k2"
    unfolding reg_ok_def by force
  ultimately show ?thesis by simp
qed

lemma live_others: "live_inv s \<Longrightarrow> others_inv r s"
  unfolding live_inv_def others_inv_def by blast

text \<open>Writing a game back under its reference.\<close>

lemma put_keeps:
  assumes "reg_ok s" and "others_inv r s"
    and "heap s r = Some g"
    and "games s1 = games s" and "next_ref s1 = next_ref s" and "heap s1 = (heap s)(r \<mapsto> g1)"
    and "\<And>k. (k, r) \<in> set (games s) \<Longrightarrow>
           game_id g1 = game_id g \<and> - 1 \<le> currentIndex g1 \<and> game_inv g1"
  shows "reg_ok s1 \<and> live_inv s1"
proof -
  have a: "game_id g1 = game_id g \<and> - 1 \<le> currentIndex g1 \<and> game_inv g1"
    if "e \<in> set (games s)" and "snd e = r" for e
    using assms(7) [of "fst e"] that by (cases e) simp
  show ?thesis
    using assms(1-6) a unfolding reg_ok_def live_inv_def others_inv_def
    by (auto split: if_splits)
qed

lemma frame_keeps:
  assumes "reg_ok s" and "live_inv s"
    and "games s1 = games s" and "next_ref s1 = next_ref s" and "heap s1 = heap s"
  shows "reg_ok s1 \<and> live_inv s1"
  using assms unfolding reg_ok_def live_inv_def by simp

lemma delete_keeps:
  assumes "reg_ok s" and "others_inv r s"
    and "(k, r) \<in> set (games s)"
    and "games s1 = AList.delete k (games s)" and "next_ref s1 = next_ref s"
    and "heap s1 = (heap s)(r := x)"
  shows "reg_ok s1 \<and> live_inv s1"
proof -
  have other: "snd e \<noteq> r" if "e \<in> set (games s1)" for e
  proof
    assume "snd e = r"
    then have "(fst e, r) \<in> set (games s)" and "fst e \<noteq> k"
      using that assms(4) by (auto simp: AList.delete_eq)
    then show False using reg_ok_same_ref [OF assms(1) assms(3)] by blast
  qed
  have sub: "set (games s1) \<subseteq> set (games s)"
    using assms(4) by (auto simp: AList.delete_eq)
  have same: "heap s1 (snd e) = heap s (snd e)" if "e \<in> set (games s1)" for e
    using other [OF that] assms(6) by simp
  have "distinct (map fst (games s1))"
    using assms(1,4) by (simp add: reg_ok_def distinct_delete)
  moreover have "snd e < next_ref s1
      \<and> (\<exists>g. heap s1 (snd e) = Some g \<and> game_id g = fst e \<and> - 1 \<le> currentIndex g)"
    if "e \<in> set (games s1)" for e
  proof -
    have "e \<in> set (games s)" using that sub by blast
    then show ?thesis using assms(1,5) same [OF that] unfolding reg_ok_def by simp
  qed
  moreover have "game_inv g" if "e \<in> set (games s1)" and "heap s1 (snd e) = Some g" for e g
  proof -
    have "e \<in> set (games s)" using that(1) sub by blast
    then show ?thesis
      using assms(2) other [OF that(1)] same [OF that(1)] that(2) unfolding others_inv_def
      by simp
  qed
  ultimately show ?thesis unfolding reg_ok_def live_inv_def by blast
qed

lemma reg_ok_entry:
  assumes "reg_ok s" and "(k, r) \<in> set (games s)" and "heap s r = Some g"
  shows "game_id g = k \<and> - 1 \<le> currentIndex g"
  using assms unfolding reg_ok_def by force

lemma live_entry:
  assumes "live_inv s" and "(k, r) \<in> set (games s)" and "heap s r = Some g"
  shows "game_inv g"
  using assms unfolding live_inv_def by force

lemma endRound_effect:
  assumes "endRound r s = Inr s1"
  shows "games s1 = games s \<and> next_ref s1 = next_ref s
     \<and> (heap s1 = heap s
        \<or> (\<exists>g g1. heap s r = Some g \<and> heap s1 = (heap s)(r \<mapsto> g1) \<and> game_id g1 = game_id g
              \<and> currentIndex g1 = currentIndex g \<and> started g1 = started g
              \<and> questions g1 = questions g \<and> round' g1 = None))"
  using assms
  by (auto simp: endRound_def Let_def emit_def put_game_def clearTimeout_def
      split: option.splits)

lemma endRound_keeps:
  assumes "reg_ok s" and "live_inv s" and "endRound r s = Inr s1"
  shows "reg_ok s1 \<and> live_inv s1"
proof -
  from endRound_effect [OF assms(3)]
  have gm: "games s1 = games s" and nr: "next_ref s1 = next_ref s"
    and cases: "heap s1 = heap s
        \<or> (\<exists>g g1. heap s r = Some g \<and> heap s1 = (heap s)(r \<mapsto> g1) \<and> game_id g1 = game_id g
              \<and> currentIndex g1 = currentIndex g \<and> started g1 = started g
              \<and> questions g1 = questions g \<and> round' g1 = None)"
    by blast+
  from cases show ?thesis
  proof
    assume "heap s1 = heap s"
    then show ?thesis using frame_keeps [OF assms(1,2) gm nr] by simp
  next
    assume "\<exists>g g1. heap s r = Some g \<and> heap s1 = (heap s)(r \<mapsto> g1) \<and> game_id g1 = game_id g
              \<and> currentIndex g1 = currentIndex g \<and> started g1 = started g
              \<and> questions g1 = questions g \<and> round' g1 = None"
    then obtain g g1 where g: "heap s r = Some g" and h: "heap s1 = (heap s)(r \<mapsto> g1)"
      and eqs: "game_id g1 = game_id g" "currentIndex g1 = currentIndex g"
        "started g1 = started g" "round' g1 = None"
      by blast
    show ?thesis
    proof (rule put_keeps [OF assms(1) live_others [OF assms(2)] g gm nr h])
      fix k assume k: "(k, r) \<in> set (games s)"
      have "game_inv g" using live_entry [OF assms(2) k g] .
      then have "game_inv g1" using eqs unfolding game_inv_def by simp
      then show "game_id g1 = game_id g \<and> - 1 \<le> currentIndex g1 \<and> game_inv g1"
        using eqs reg_ok_entry [OF assms(1) k g] by simp
    qed
  qed
qed

lemma clearTimeout_keeps:
  "reg_ok s \<and> live_inv s \<Longrightarrow> reg_ok (clearTimeout h s) \<and> live_inv (clearTimeout h s)"
  by (simp add: reg_ok_def live_inv_def clearTimeout_def)

lemma emit_keeps:
  "reg_ok s \<and> live_inv s \<Longrightarrow> reg_ok (emit to msg s) \<and> live_inv (emit to msg s)"
  by (simp add: reg_ok_def live_inv_def emit_def)

lemma maybeEndEarly_keeps:
  assumes "reg_ok s \<and> live_inv s" and "maybeEndEarly r s = Inr s1"
  shows "reg_ok s1 \<and> live_inv s1"
proof (cases "\<exists>g rd. heap s r = Some g \<and> round' g = Some rd \<and> awaiting rd = {}")
  case True
  then obtain g rd where "heap s r = Some g" "round' g = Some rd" "awaiting rd = {}" by blast
  then have "endRound r (clearTimeout (timer rd) s) = Inr s1"
    using assms(2) by (simp add: maybeEndEarly_def)
  then show ?thesis
    using endRound_keeps clearTimeout_keeps [OF assms(1)] by blast
next
  case False
  then have "s1 = s" using assms(2)
    by (auto simp: maybeEndEarly_def split: option.splits if_splits)
  then show ?thesis using assms(1) by simp
qed

lemma startQuestion_keeps:
  assumes "reg_ok s" and "others_inv r s" and "(k, r) \<in> set (games s)"
    and "startQuestion r now s = Inr s1"
  shows "reg_ok s1 \<and> live_inv s1"
proof -
  from assms(1,3) obtain g0 where g0: "heap s r = Some g0" and id0: "game_id g0 = k"
    and lo: "- 1 \<le> currentIndex g0"
    unfolding reg_ok_def by force
  let ?g = "g0\<lparr>currentIndex := currentIndex g0 + 1\<rparr>"
  show ?thesis
  proof (cases "currentIndex ?g \<ge> int (length (questions ?g))")
    case True
    then have s1: "s1 = endGame ?g (put_game r ?g s)"
      using assms(4) g0 by (simp add: startQuestion_def Let_def)
    show ?thesis
    proof (rule delete_keeps [OF assms(1,2,3)])
      show "games s1 = AList.delete k (games s)"
        unfolding s1 using id0 by (simp add: endGame_def emit_def put_game_def Let_def)
      show "next_ref s1 = next_ref s"
        unfolding s1 by (simp add: endGame_def emit_def put_game_def Let_def)
      show "heap s1 = (heap s)(r := Some ?g)"
        unfolding s1 by (simp add: endGame_def emit_def put_game_def Let_def)
    qed
  next
    case False
    then obtain q where q: "question_at ?g (currentIndex ?g) = Some q"
      using lo by (auto simp: question_at_def)
    from False assms(4) g0 q obtain g2 where
      h: "heap s1 = (heap s)(r \<mapsto> g2)" and gm: "games s1 = games s"
      and nr: "next_ref s1 = next_ref s"
      and g2: "game_id g2 = game_id g0" "currentIndex g2 = currentIndex g0 + 1"
        "questions g2 = questions g0"
      by (auto simp: startQuestion_def Let_def emit_def put_game_def setTimeout_def)
    show ?thesis
    proof (rule put_keeps [OF assms(1,2) g0 gm nr h])
      fix k' assume "(k', r) \<in> set (games s)"
      have "game_inv g2" using g2 False lo unfolding game_inv_def by auto
      then show "game_id g2 = game_id g0 \<and> - 1 \<le> currentIndex g2 \<and> game_inv g2"
        using g2 lo by simp
    qed
  qed
qed

lemma set_update_cases:
  "distinct (map fst al) \<Longrightarrow> e \<in> set (AList.update k v al) \<Longrightarrow>
   e = (k, v) \<or> (e \<in> set al \<and> fst e \<noteq> k)"
  by (induction al) (auto split: if_splits)

lemma put_game_same:
  assumes "reg_ok s" and "live_inv s" and "(k, r) \<in> set (games s)" and "heap s r = Some g"
    and "game_id g1 = game_id g" and "currentIndex g1 = currentIndex g"
    and "game_inv g \<Longrightarrow> game_inv g1"
  shows "reg_ok (put_game r g1 s) \<and> live_inv (put_game r g1 s)"
proof (rule put_keeps [OF assms(1) live_others [OF assms(2)] assms(4)])
  show "heap (put_game r g1 s) = (heap s)(r \<mapsto> g1)" by (simp add: put_game_def)
  fix k' assume "(k', r) \<in> set (games s)"
  show "game_id g1 = game_id g \<and> - 1 \<le> currentIndex g1 \<and> game_inv g1"
    using assms(5,6) assms(7) [OF live_entry [OF assms(2,3,4)]] reg_ok_entry [OF assms(1,3,4)]
    by simp
qed (simp_all add: put_game_def)

lemma host_createGame_keeps:
  assumes "reg_ok s" and "live_inv s" and "host_createGame sock has_ack payload nid rnd s = Inr s1"
  shows "reg_ok s1 \<and> live_inv s1"
proof (cases "length (games s) \<ge> MAX_GAMES \<or> \<not> validateQuizPayload payload")
  case True
  then have "games s1 = games s" "next_ref s1 = next_ref s" "heap s1 = heap s"
    using assms(3) by (auto simp: host_createGame_def send_ack_def emit_def split: if_splits)
  then show ?thesis using frame_keeps [OF assms(1,2)] by blast
next
  case False
  let ?g = "createGameState sock payload nid rnd"
  have gm: "games s1 = AList.update nid (next_ref s) (games s)"
    and nr: "next_ref s1 = next_ref s + 1"
    and h: "heap s1 = (heap s)(next_ref s \<mapsto> ?g)"
    using False assms(3)
    by (auto simp: host_createGame_def send_ack_def emit_def broadcastLobby_def Let_def
        createGameState_def)
  have g: "game_id ?g = nid" "currentIndex ?g = - 1" "game_inv ?g"
    by (simp_all add: createGameState_def Let_def game_inv_def)
  have mem: "e = (nid, next_ref s) \<or> (e \<in> set (games s) \<and> fst e \<noteq> nid)"
    if "e \<in> set (games s1)" for e
    using that assms(1) unfolding gm reg_ok_def by (intro set_update_cases) simp_all
  have old: "snd e < next_ref s" if "e \<in> set (games s)" for e
    using assms(1) that unfolding reg_ok_def by blast
  have "distinct (map fst (games s1))"
    unfolding gm using assms(1) by (simp add: reg_ok_def distinct_update)
  moreover have "snd e < next_ref s1
      \<and> (\<exists>g. heap s1 (snd e) = Some g \<and> game_id g = fst e \<and> - 1 \<le> currentIndex g)"
    if "e \<in> set (games s1)" for e
    using mem [OF that]
  proof
    assume "e = (nid, next_ref s)"
    then show ?thesis using g nr h by simp
  next
    assume a: "e \<in> set (games s) \<and> fst e \<noteq> nid"
    then have "heap s1 (snd e) = heap s (snd e)" using old [of e] h by simp
    then show ?thesis using a assms(1) nr unfolding reg_ok_def by force
  qed
  moreover have "game_inv g'" if "e \<in> set (games s1)" and "heap s1 (snd e) = Some g'" for e g'
    using mem [OF that(1)]
  proof
    assume "e = (nid, next_ref s)"
    then show ?thesis using g that(2) h by simp
  next
    assume a: "e \<in> set (games s) \<and> fst e \<noteq> nid"
    then have "heap s1 (snd e) = heap s (snd e)" using old [of e] h by simp
    then show ?thesis using a assms(2) that(2) unfolding live_inv_def by force
  qed
  ultimately show ?thesis unfolding reg_ok_def live_inv_def by blast
qed

lemma host_startGame_keeps:
  assumes "reg_ok s" and "live_inv s" and "host_startGame sock gameId now s = Inr s1"
  shows "reg_ok s1 \<and> live_inv s1"
proof (cases "\<exists>r g. map_of (games s) gameId = Some r \<and> heap s r = Some g
    \<and> hostSocketId g = sock \<and> \<not> started g")
  case False
  then have "s1 = s" using assms(3)
    by (auto simp: host_startGame_def split: option.splits if_splits)
  then show ?thesis using assms(1,2) by simp
next
  case True
  then obtain r g where r: "map_of (games s) gameId = Some r" and g: "heap s r = Some g"
    and c: "hostSocketId g = sock" "\<not> started g"
    by blast
  let ?g1 = "g\<lparr>started := True\<rparr>"
  let ?s2 = "emit (game_id ?g1) (GameStarted (title ?g1)) (put_game r ?g1 s)"
  have run: "startQuestion r now ?s2 = Inr s1"
    using assms(3) r g c by (simp add: host_startGame_def Let_def)
  have mem: "(gameId, r) \<in> set (games s)" using r by (rule map_of_SomeD)
  have e: "game_id g = gameId \<and> - 1 \<le> currentIndex g"
    using reg_ok_entry [OF assms(1) mem g] .
  have ro: "reg_ok ?s2"
    using assms(1) e g unfolding reg_ok_def by (auto simp: emit_def put_game_def)
  have oi: "others_inv r ?s2"
    using assms(2) unfolding live_inv_def others_inv_def by (auto simp: emit_def put_game_def)
  have "(gameId, r) \<in> set (games ?s2)" using mem by (simp add: emit_def put_game_def)
  from startQuestion_keeps [OF ro oi this run] show ?thesis .
qed

lemma host_next_keeps:
  assumes "reg_ok s" and "live_inv s" and "host_next sock gameId now s = Inr s1"
  shows "reg_ok s1 \<and> live_inv s1"
proof (cases "\<exists>r g. map_of (games s) gameId = Some r \<and> heap s r = Some g \<and> hostSocketId g = sock")
  case False
  then have "s1 = s" using assms(3)
    by (auto simp: host_next_def split: option.splits if_splits)
  then show ?thesis using assms(1,2) by simp
next
  case True
  then obtain r g where r: "map_of (games s) gameId = Some r" and g: "heap s r = Some g"
    and c: "hostSocketId g = sock"
    by blast
  have run: "startQuestion r now s = Inr s1"
    using assms(3) r g c by (simp add: host_next_def)
  have mem: "(gameId, r) \<in> set (games s)" using r by (rule map_of_SomeD)
  from startQuestion_keeps [OF assms(1) live_others [OF assms(2)] mem run] show ?thesis .
qed

lemma player_join_keeps:
  assumes "reg_ok s" and "live_inv s" and "player_join sock has_ack gameId nm s = Inr s1"
  shows "reg_ok s1 \<and> live_inv s1"
proof (cases "\<exists>r g. map_of (games s) gameId = Some r \<and> heap s r = Some g
    \<and> \<not> started g \<and> \<not> length (players g) \<ge> MAX_PLAYERS_PER_GAME")
  case False
  then have "games s1 = games s" "next_ref s1 = next_ref s" "heap s1 = heap s"
    using assms(3)
    by (auto simp: player_join_def send_ack_def emit_def split: option.splits if_splits)
  then show ?thesis using frame_keeps [OF assms(1,2)] by blast
next
  case True
  then obtain r g where r: "map_of (games s) gameId = Some r" and g: "heap s r = Some g"
    and c: "\<not> started g" "\<not> length (players g) \<ge> MAX_PLAYERS_PER_GAME"
    by blast
  have mem: "(gameId, r) \<in> set (games s)" using r by (rule map_of_SomeD)
  let ?g1 = "g\<lparr>players := AList.update sock
      \<lparr>name = sanitizeName nm, score = 0, answeredAtMs = None,
       selectedOptionId = JNull, lastCorrect = False\<rparr> (players g)\<rparr>"
  have p: "reg_ok (put_game r ?g1 s) \<and> live_inv (put_game r ?g1 s)"
    by (rule put_game_same [OF assms(1,2) mem g]) (simp_all add: game_inv_def)
  have "games s1 = games (put_game r ?g1 s)" "next_ref s1 = next_ref (put_game r ?g1 s)"
    "heap s1 = heap (put_game r ?g1 s)"
    using assms(3) r g c
    by (auto simp: player_join_def send_ack_def emit_def broadcastLobby_def Let_def)
  then show ?thesis using p frame_keeps by blast
qed

lemma player_answer_keeps:
  assumes "reg_ok s" and "live_inv s"
    and "player_answer sock gameId questionId optionId now s = Inr s1"
  shows "reg_ok s1 \<and> live_inv s1"
proof (cases "\<exists>r g rd p q. map_of (games s) gameId = Some r \<and> heap s r = Some g
    \<and> round' g = Some rd \<and> map_of (players g) sock = Some p
    \<and> question_at g (currentIndex g) = Some q \<and> JStr (id' q) = questionId
    \<and> selectedOptionId p = JNull")
  case False
  then have "s1 = s" using assms(3)
    by (auto simp: player_answer_def split: option.splits if_splits)
  then show ?thesis using assms(1,2) by simp
next
  case True
  then obtain r g rd p q where r: "map_of (games s) gameId = Some r" and g: "heap s r = Some g"
    and c: "round' g = Some rd" "map_of (players g) sock = Some p"
      "question_at g (currentIndex g) = Some q" "JStr (id' q) = questionId"
      "selectedOptionId p = JNull"
    by blast
  have mem: "(gameId, r) \<in> set (games s)" using r by (rule map_of_SomeD)
  let ?g1 = "g\<lparr>players := AList.update sock
      (p\<lparr>selectedOptionId := optionId, answeredAtMs := Some now\<rparr>) (players g),
      round' := Some (rd\<lparr>awaiting := awaiting rd - {sock}\<rparr>)\<rparr>"
  let ?s2 = "emit sock (PlayerLocked optionId) (put_game r ?g1 s)"
  have p: "reg_ok (put_game r ?g1 s) \<and> live_inv (put_game r ?g1 s)"
    by (rule put_game_same [OF assms(1,2) mem g]) (simp_all add: game_inv_def c)
  have "maybeEndEarly r ?s2 = Inr s1"
    using assms(3) r g c by (simp add: player_answer_def Let_def)
  from maybeEndEarly_keeps [OF emit_keeps [OF p] this] show ?thesis .
qed

lemma disconnect_loop_keeps:
  assumes "reg_ok s" and "live_inv s" and "set es \<subseteq> set (games s)"
    and "disconnect_loop sock es s = Inr s1"
  shows "reg_ok s1 \<and> live_inv s1"
  using assms(3,4)
proof (induction es)
  case Nil
  then show ?case using assms(1,2) by simp
next
  case (Cons e es)
  obtain gameId r where e: "e = (gameId, r)" by (cases e)
  have mem: "(gameId, r) \<in> set (games s)" using Cons.prems(1) e by simp
  from assms(1) mem obtain g where g: "heap s r = Some g" unfolding reg_ok_def by force
  consider (host) "hostSocketId g = sock"
    | (player) "hostSocketId g \<noteq> sock" "map_of (players g) sock \<noteq> None"
    | (skip) "hostSocketId g \<noteq> sock" "map_of (players g) sock = None"
    by blast
  then show ?case
  proof cases
    case host
    then have s1: "s1 = (emit (game_id g) (GameCancelled ''Host disconnected'') s)
        \<lparr>games := AList.delete gameId (games s)\<rparr>"
      using Cons.prems(2) e g by (simp add: Let_def emit_def)
    show ?thesis
    proof (rule delete_keeps [OF assms(1) live_others [OF assms(2)] mem])
      show "heap s1 = (heap s)(r := heap s r)" unfolding s1 by (simp add: emit_def)
    qed (simp_all add: s1 emit_def)
  next
    case player
    let ?g1 = "g\<lparr>players := AList.delete sock (players g)\<rparr>"
    let ?s2 = "broadcastLobby ?g1 (put_game r ?g1 s)"
    have p: "reg_ok (put_game r ?g1 s) \<and> live_inv (put_game r ?g1 s)"
      by (rule put_game_same [OF assms(1,2) mem g]) (simp_all add: game_inv_def)
    have p2: "reg_ok ?s2 \<and> live_inv ?s2"
      unfolding broadcastLobby_def by (rule emit_keeps [OF p])
    show ?thesis
    proof (cases "\<exists>rd. round' g = Some rd \<and> length (players ?g1) = 0")
      case True
      then obtain rd where "round' g = Some rd" "length (players ?g1) = 0" by blast
      then have "endRound r (clearTimeout (timer rd) ?s2) = Inr s1"
        using Cons.prems(2) e g player by (simp add: Let_def)
      then show ?thesis using endRound_keeps clearTimeout_keeps [OF p2] by blast
    next
      case False
      then have "s1 = ?s2"
        using Cons.prems(2) e g player by (auto simp: Let_def split: option.splits if_splits)
      then show ?thesis using p2 by simp
    qed
  next
    case skip
    then have "disconnect_loop sock es s = Inr s1"
      using Cons.prems(2) e g by simp
    then show ?thesis using Cons.IH Cons.prems(1) by simp
  qed
qed

lemma step_keeps:
  assumes "reg_ok s \<and> live_inv s" and "step s ev = Inr s1"
  shows "reg_ok s1 \<and> live_inv s1"
proof (cases ev)
  case (Request sock ip now has_ack req)
  let ?s0 = "s\<lparr>rateLimitMap := snd (rateLimit (rateLimitMap s) ip now)\<rparr>"
  have s0: "reg_ok ?s0" "live_inv ?s0"
    using assms(1) by (simp_all add: reg_ok_def live_inv_def)
  show ?thesis
  proof (cases "fst (rateLimit (rateLimitMap s) ip now)")
    case False
    then have "games s1 = games ?s0" "next_ref s1 = next_ref ?s0" "heap s1 = heap ?s0"
      using assms(2) Request
      by (auto simp: step_def wrapRateLimit_def Let_def emit_def split: if_splits)
    then show ?thesis using frame_keeps [OF s0] by blast
  next
    case True
    then have h: "handle sock has_ack req ?s0 = Inr s1"
      using assms(2) Request by (simp add: step_def wrapRateLimit_def Let_def)
    show ?thesis
    proof (cases req)
      case (CreateGame payload nid rnd)
      then show ?thesis using h host_createGame_keeps [OF s0] by (simp add: handle_def)
    next
      case (StartGame gameId t)
      then show ?thesis using h host_startGame_keeps [OF s0] by (simp add: handle_def)
    next
      case (Next gameId t)
      then show ?thesis using h host_next_keeps [OF s0] by (simp add: handle_def)
    next
      case (Join gameId nm)
      then show ?thesis using h player_join_keeps [OF s0] by (simp add: handle_def)
    next
      case (Answer gameId questionId optionId t)
      then show ?thesis using h player_answer_keeps [OF s0] by (simp add: handle_def)
    qed
  qed
next
  case (Disconnect sock)
  then have "disconnect_loop sock (games s) s = Inr s1"
    using assms(2) by (simp add: step_def disconnect_def)
  then show ?thesis using disconnect_loop_keeps assms(1) by blast
next
  case (TimerFire h)
  show ?thesis
  proof (cases "timers s h")
    case None
    then show ?thesis using assms TimerFire by (simp add: step_def)
  next
    case (Some r)
    then have "endRound r (clearTimeout h s) = Inr s1"
      using assms(2) TimerFire by (simp add: step_def)
    then show ?thesis using endRound_keeps clearTimeout_keeps [OF assms(1)] by blast
  qed
qed

lemma reachable_inv: "reachable s \<Longrightarrow> reg_ok s \<and> live_inv s"
proof (induction rule: reachable.induct)
  case reachable_init
  show ?case by (simp add: reg_ok_def live_inv_def init_server_def)
next
  case (reachable_step s ev s1)
  then show ?case using step_keeps by blast
qed

lemmas model_defs =
  step_def wrapRateLimit_def handle_def rateLimit_def host_createGame_def host_startGame_def
  host_next_def player_join_def player_answer_def disconnect_def endRound_def maybeEndEarly_def
  startQuestion_def endGame_def createGameState_def make_question_def shuffle_def number_or_def
  clamp_time_def getPublicLeaderboard_def broadcastLobby_def emit_def send_ack_def
  clearTimeout_def setTimeout_def put_game_def question_at_def score_player_def includes'_def
  sanitizeName_def name_char_def word_char_def init_server_def MAX_GAMES_def
  MAX_PLAYERS_PER_GAME_def RATE_LIMIT_MAX_def RATE_LIMIT_WINDOW_MS_def validator_eval Let_def
  after_def ex_create_def ex_join_def ex_start_def ex_answer_event_def

lemma reachable_run: "reachable s \<Longrightarrow> run s evs = Inr s1 \<Longrightarrow> reachable s1"
proof (induction evs arbitrary: s)
  case Nil
  then show ?case by simp
next
  case (Cons ev evs)
  then show ?case by (auto split: sum.splits intro: reachable_step)
qed

lemma reachable_after: "reachable (after evs)"
  unfolding after_def
  by (auto split: sum.splits intro: reachable_init reachable_run [OF reachable_init])

subsection \<open>The state of a live session\<close>

text \<open>
  C3, amended. In every reachable state, a game that the registry lists exists, and: when
  its current index is -1 it is not started and has no round; when it has a round, its
  current index is at least 0 and less than the number of its questions.
\<close>

theorem session_invariant:
  assumes "reachable s" and "(gameId, r) \<in> set (games s)"
  shows "\<exists>g. heap s r = Some g
     \<and> (currentIndex g = - 1 \<longrightarrow> \<not> started g \<and> round' g = None)
     \<and> (round' g \<noteq> None \<longrightarrow> 0 \<le> currentIndex g \<and> currentIndex g < int (length (questions g)))"
proof -
  have inv: "reg_ok s" "live_inv s" using reachable_inv [OF assms(1)] by simp_all
  from inv(1) assms(2) obtain g where g: "heap s r = Some g" unfolding reg_ok_def by force
  have "game_inv g" using live_entry [OF inv(2) assms(2) g] .
  then show ?thesis using g unfolding game_inv_def by blast
qed

text \<open>
  C3, as stated, fails: after a reveal the game has no round although it is started and
  its current index is 0. The host creates the game and starts it, and the round's timer
  fires.
\<close>

lemma ex_revealed:
  "games (after [ex_create, ex_start, TimerFire 0]) = [(''ABCD'', 0)]
   \<and> heap (after [ex_create, ex_start, TimerFire 0]) 0 \<noteq> None
   \<and> round' (the (heap (after [ex_create, ex_start, TimerFire 0]) 0)) = None
   \<and> started (the (heap (after [ex_create, ex_start, TimerFire 0]) 0))
   \<and> currentIndex (the (heap (after [ex_create, ex_start, TimerFire 0]) 0)) = 0"
  by (simp add: model_defs)

theorem session_invariant_counterexample:
  "reachable (after [ex_create, ex_start, TimerFire 0])
   \<and> (''ABCD'', 0) \<in> set (games (after [ex_create, ex_start, TimerFire 0]))
   \<and> heap (after [ex_create, ex_start, TimerFire 0]) 0 \<noteq> None
   \<and> round' (the (heap (after [ex_create, ex_start, TimerFire 0]) 0)) = None
   \<and> started (the (heap (after [ex_create, ex_start, TimerFire 0]) 0))
   \<and> currentIndex (the (heap (after [ex_create, ex_start, TimerFire 0]) 0)) \<noteq> - 1"
  using reachable_after [of "[ex_create, ex_start, TimerFire 0]"] ex_revealed by simp

lemma ex_in_round:
  "games (after [ex_create, ex_join ''p1'' ''ann'', ex_start]) = [(''ABCD'', 0)]
   \<and> round' (the (heap (after [ex_create, ex_join ''p1'' ''ann'', ex_start]) 0)) \<noteq> None"
  by (simp add: model_defs)

theorem session_invariant_witness:
  "reachable (after [ex_create, ex_join ''p1'' ''ann'', ex_start])
   \<and> (''ABCD'', 0) \<in> set (games (after [ex_create, ex_join ''p1'' ''ann'', ex_start]))
   \<and> (\<exists>g. heap (after [ex_create, ex_join ''p1'' ''ann'', ex_start]) 0 = Some g
         \<and> round' g \<noteq> None \<and> 0 \<le> currentIndex g
         \<and> currentIndex g < int (length (questions g)))"
proof -
  let ?s = "after [ex_create, ex_join ''p1'' ''ann'', ex_start]"
  have r: "reachable ?s" by (rule reachable_after)
  have m: "(''ABCD'', 0) \<in> set (games ?s)" using ex_in_round by simp
  from session_invariant [OF r m] obtain g where "heap ?s 0 = Some g"
    and "round' g \<noteq> None \<longrightarrow> 0 \<le> currentIndex g \<and> currentIndex g < int (length (questions g))"
    by blast
  moreover from this have "round' g \<noteq> None" using ex_in_round by simp
  ultimately show ?thesis using r m by blast
qed

subsection \<open>Ending a round\<close>

lemma endRound_result:
  assumes "heap s r = Some g" and "round' g = Some rd"
    and "question_at g (currentIndex g) = Some q"
  shows "\<exists>s1 g1. endRound r s = Inr s1
     \<and> heap s1 r = Some g1 \<and> round' g1 = None
     \<and> players g1 = map (\<lambda>kp. (fst kp, score_player q (endMs rd) (snd kp))) (players g)
     \<and> outbox s1 = outbox s @
          [(game_id g, QuestionReveal (correctOptionIds q) (currentIndex g)
              (length (questions g)) (getPublicLeaderboard g1)),
           (hostSocketId g, HostCanAdvance)]
     \<and> timers s1 = (timers s)(timer rd := None)"
  using assms
  by (simp add: endRound_def Let_def emit_def put_game_def clearTimeout_def
      getPublicLeaderboard_def)

lemma endRound_no_round:
  assumes "heap s r = Some g" and "round' g = None"
  shows "endRound r s = Inr s" and "maybeEndEarly r s = Inr s"
  using assms by (simp_all add: endRound_def maybeEndEarly_def)

text \<open>
  C2. Take a game that the registry lists, in a reachable state, with an active round.
  Its current question exists, and \<open>endRound\<close> returns: it appends to what was sent
  exactly one reveal (to the room) and the host's "can advance", replaces every player
  by its once-scored record, clears the round and cancels its timer. Invoked again on the
  result, through \<open>endRound\<close>, through \<open>maybeEndEarly\<close> or through the round's timer, it
  returns the state as it is: nothing is sent and no score changes. A timer of an earlier
  round of the game that is still pending fires to no effect but its own removal from
  the pending timers.
\<close>

theorem endRound_idempotent:
  assumes "reachable s" and "(gameId, r) \<in> set (games s)"
    and "heap s r = Some g" and "round' g = Some rd"
  shows "\<exists>q s1 g1. question_at g (currentIndex g) = Some q
     \<and> endRound r s = Inr s1
     \<and> heap s1 r = Some g1 \<and> round' g1 = None
     \<and> players g1 = map (\<lambda>kp. (fst kp, score_player q (endMs rd) (snd kp))) (players g)
     \<and> outbox s1 = outbox s @
          [(game_id g, QuestionReveal (correctOptionIds q) (currentIndex g)
              (length (questions g)) (getPublicLeaderboard g1)),
           (hostSocketId g, HostCanAdvance)]
     \<and> length (reveals s1) = length (reveals s) + 1
     \<and> endRound r s1 = Inr s1
     \<and> maybeEndEarly r s1 = Inr s1
     \<and> step s1 (TimerFire (timer rd)) = Inr s1
     \<and> (\<forall>h. timers s1 h = Some r \<longrightarrow> step s1 (TimerFire h) = Inr (clearTimeout h s1))"
proof -
  have "game_inv g"
    using live_entry [OF _ assms(2,3)] reachable_inv [OF assms(1)] by simp
  then obtain q where q: "question_at g (currentIndex g) = Some q"
    using assms(4) unfolding game_inv_def question_at_def by auto
  from endRound_result [OF assms(3,4) q] obtain s1 g1 where
    e: "endRound r s = Inr s1" and h: "heap s1 r = Some g1" and n: "round' g1 = None"
    and p: "players g1 = map (\<lambda>kp. (fst kp, score_player q (endMs rd) (snd kp))) (players g)"
    and ob: "outbox s1 = outbox s @
          [(game_id g, QuestionReveal (correctOptionIds q) (currentIndex g)
              (length (questions g)) (getPublicLeaderboard g1)),
           (hostSocketId g, HostCanAdvance)]"
    and t: "timers s1 = (timers s)(timer rd := None)"
    by blast
  have c: "length (reveals s1) = length (reveals s) + 1"
    unfolding reveals_def ob by (simp add: is_reveal_def)
  have again: "endRound r s1 = Inr s1" "maybeEndEarly r s1 = Inr s1"
    using endRound_no_round [OF h n] by simp_all
  have f: "step s1 (TimerFire (timer rd)) = Inr s1"
    using t by (simp add: step_def)
  have "step s1 (TimerFire h') = Inr (clearTimeout h' s1)" if "timers s1 h' = Some r" for h'
  proof -
    have "heap (clearTimeout h' s1) r = Some g1" using h by (simp add: clearTimeout_def)
    then have "endRound r (clearTimeout h' s1) = Inr (clearTimeout h' s1)"
      using n by (rule endRound_no_round(1))
    then show ?thesis using that by (simp add: step_def)
  qed
  then show ?thesis using q e h n p ob c again f by blast
qed

lemma ex_round_state:
  "games (after [ex_create, ex_join ''p1'' ''ann'', ex_start]) = [(''ABCD'', 0)]
   \<and> heap (after [ex_create, ex_join ''p1'' ''ann'', ex_start]) 0 \<noteq> None
   \<and> round' (the (heap (after [ex_create, ex_join ''p1'' ''ann'', ex_start]) 0)) \<noteq> None
   \<and> question_at (the (heap (after [ex_create, ex_join ''p1'' ''ann'', ex_start]) 0))
        (currentIndex (the (heap (after [ex_create, ex_join ''p1'' ''ann'', ex_start]) 0))) \<noteq> None
   \<and> reveals (after [ex_create, ex_join ''p1'' ''ann'', ex_start]) = []"
  by (simp add: model_defs reveals_def is_reveal_def)

theorem endRound_idempotent_witness:
  "reachable (after [ex_create, ex_join ''p1'' ''ann'', ex_start])
   \<and> (''ABCD'', 0) \<in> set (games (after [ex_create, ex_join ''p1'' ''ann'', ex_start]))
   \<and> (\<exists>s1. endRound 0 (after [ex_create, ex_join ''p1'' ''ann'', ex_start]) = Inr s1
         \<and> length (reveals s1) = 1 \<and> endRound 0 s1 = Inr s1 \<and> maybeEndEarly 0 s1 = Inr s1)"
proof -
  let ?s = "after [ex_create, ex_join ''p1'' ''ann'', ex_start]"
  let ?g = "the (heap ?s 0)"
  have a: "reachable ?s" by (rule reachable_after)
  have m: "(''ABCD'', 0) \<in> set (games ?s)" using ex_round_state by simp
  have h: "heap ?s 0 = Some ?g" using ex_round_state by simp
  have r: "round' ?g = Some (the (round' ?g))" using ex_round_state by simp
  from endRound_idempotent [OF a m h r] obtain s1 where
    "endRound 0 ?s = Inr s1" "length (reveals s1) = length (reveals ?s) + 1"
    "endRound 0 s1 = Inr s1" "maybeEndEarly 0 s1 = Inr s1"
    by blast
  then have "\<exists>s1. endRound 0 ?s = Inr s1
      \<and> length (reveals s1) = 1 \<and> endRound 0 s1 = Inr s1 \<and> maybeEndEarly 0 s1 = Inr s1"
    using ex_round_state by auto
  then show ?thesis using a m by blast
qed

subsection \<open>A player disconnects\<close>

text \<open>
  C4: the code at the failing inputs. Two players are in a round; \<open>p1\<close> has answered, \<open>p2\<close>
  is the only one awaited. When \<open>p2\<close> disconnects it leaves the player map and stays in the
  awaiting set: the round stays active and no reveal is sent. In the second run \<open>p2\<close>
  disconnects first and \<open>p1\<close> answers afterwards: every player of the game has answered,
  and still \<open>p2\<close> is awaited, the round stays active and no reveal is sent. The answer
  handler takes each player who answers out of the awaiting set and \<open>maybeEndEarly\<close> ends
  the round once nobody is awaited; the disconnect handler takes the player out of the
  player map only, so after it the round can end early only when no player is left.
\<close>

theorem disconnect_keeps_awaiting:
  "map fst (players (the (heap (after ex_two_players) 0))) = [''p1'', ''p2'']
   \<and> awaiting (the (round' (the (heap (after ex_two_players) 0)))) = {''p2''}
   \<and> map fst (players (the (heap (after (ex_two_players @ [Disconnect ''p2''])) 0))) = [''p1'']
   \<and> round' (the (heap (after (ex_two_players @ [Disconnect ''p2''])) 0)) \<noteq> None
   \<and> awaiting (the (round' (the (heap (after (ex_two_players @ [Disconnect ''p2''])) 0))))
       = {''p2''}
   \<and> reveals (after (ex_two_players @ [Disconnect ''p2''])) = []
   \<and> map fst (players (the (heap (after ex_leave_then_answer) 0))) = [''p1'']
   \<and> selectedOptionId (the (map_of (players (the (heap (after ex_leave_then_answer) 0))) ''p1''))
       = JStr ''b''
   \<and> round' (the (heap (after ex_leave_then_answer) 0)) \<noteq> None
   \<and> awaiting (the (round' (the (heap (after ex_leave_then_answer) 0)))) = {''p2''}
   \<and> reveals (after ex_leave_then_answer) = []"
  by (simp add: model_defs reveals_def is_reveal_def ex_two_players_def
      ex_leave_then_answer_def)

subsection \<open>A game is deleted during a round\<close>

text \<open>
  C5: the code at the failing inputs. The host disconnects during a round: the game
  leaves the registry and the round's timer stays pending; no reveal has been sent; when
  the timer fires, a reveal for the deleted game is sent. The host asks for the next
  question during the round of the last question: the game is over and leaves the
  registry, the round's timer stays pending; when it fires, \<open>endRound\<close> finds no current
  question and throws.
\<close>

theorem timer_survives_deletion:
  "games (after ex_host_leaves) = []
   \<and> timers (after ex_host_leaves) 0 = Some 0
   \<and> reveals (after ex_host_leaves) = []
   \<and> reveals (after (ex_host_leaves @ [TimerFire 0]))
       = [QuestionReveal [''b''] 0 1 [(''ann'', 0, False)]]
   \<and> games (after ex_last_next) = []
   \<and> timers (after ex_last_next) 0 = Some 0
   \<and> run init_server (ex_last_next @ [TimerFire 0]) = Inl TypeError"
  by (simp add: model_defs reveals_def is_reveal_def ex_host_leaves_def ex_last_next_def)

subsection \<open>Timers and the host's next\<close>

lemma fresh_put:
  assumes "timers_fresh s" and "next_timer s \<le> next_timer s1"
    and "heap s1 = (heap s)(r \<mapsto> g1)"
    and "\<And>rd1. round' g1 = Some rd1 \<Longrightarrow> timer rd1 < next_timer s1"
  shows "timers_fresh s1"
  using assms unfolding timers_fresh_def by (auto split: if_splits) fastforce

lemma fresh_frame:
  assumes "timers_fresh s" and "next_timer s \<le> next_timer s1" and "heap s1 = heap s"
  shows "timers_fresh s1"
  using assms unfolding timers_fresh_def by fastforce

lemma fresh_entry:
  "timers_fresh s \<Longrightarrow> heap s r = Some g \<Longrightarrow> round' g = Some rd \<Longrightarrow> timer rd < next_timer s"
  unfolding timers_fresh_def by blast

lemma endRound_fresh:
  assumes "timers_fresh s" and "endRound r s = Inr s1"
  shows "timers_fresh s1"
  using assms
  by (auto simp: endRound_def Let_def emit_def put_game_def clearTimeout_def
      split: option.splits intro!: fresh_put [where s = s and r = r])

lemma clearTimeout_fresh: "timers_fresh s \<Longrightarrow> timers_fresh (clearTimeout h s)"
  by (simp add: timers_fresh_def clearTimeout_def)

lemma emit_fresh: "timers_fresh s \<Longrightarrow> timers_fresh (emit to msg s)"
  by (simp add: timers_fresh_def emit_def)

lemma maybeEndEarly_fresh:
  assumes "timers_fresh s" and "maybeEndEarly r s = Inr s1"
  shows "timers_fresh s1"
  using assms
  by (auto simp: maybeEndEarly_def split: option.splits if_splits
      dest: endRound_fresh [OF clearTimeout_fresh])

lemma startQuestion_fresh:
  assumes "timers_fresh s" and "startQuestion r now s = Inr s1"
  shows "timers_fresh s1"
proof (cases "heap s r")
  case None
  then show ?thesis using assms by (simp add: startQuestion_def)
next
  case (Some g0)
  let ?g = "g0\<lparr>currentIndex := currentIndex g0 + 1\<rparr>"
  show ?thesis
  proof (cases "currentIndex ?g \<ge> int (length (questions ?g))")
    case True
    then have s1: "s1 = endGame ?g (put_game r ?g s)"
      using assms(2) Some by (simp add: startQuestion_def Let_def)
    show ?thesis
    proof (rule fresh_put [OF assms(1)])
      show "heap s1 = (heap s)(r \<mapsto> ?g)"
        unfolding s1 by (simp add: endGame_def emit_def put_game_def Let_def)
      show "next_timer s \<le> next_timer s1"
        unfolding s1 by (simp add: endGame_def emit_def put_game_def Let_def)
      fix rd1 assume "round' ?g = Some rd1"
      then have "timer rd1 < next_timer s" using fresh_entry [OF assms(1) Some] by simp
      then show "timer rd1 < next_timer s1"
        unfolding s1 by (simp add: endGame_def emit_def put_game_def Let_def)
    qed
  next
    case False
    with assms(2) Some obtain g2 rd2 where
      "heap s1 = (heap s)(r \<mapsto> g2)" "next_timer s1 = next_timer s + 1"
      "round' g2 = Some rd2" "timer rd2 = next_timer s"
      by (auto simp: startQuestion_def Let_def emit_def put_game_def setTimeout_def
          split: option.splits)
    then show ?thesis by (intro fresh_put [OF assms(1)]) auto
  qed
qed

lemma disconnect_loop_fresh:
  assumes "timers_fresh s" and "disconnect_loop sock es s = Inr s1"
  shows "timers_fresh s1"
  using assms(2)
proof (induction es)
  case Nil
  then show ?case using assms(1) by simp
next
  case (Cons e es)
  obtain k r where e: "e = (k, r)" by (cases e)
  show ?case
  proof (cases "heap s r")
    case None
    then show ?thesis using Cons e by simp
  next
    case (Some g)
    let ?g1 = "g\<lparr>players := AList.delete sock (players g)\<rparr>"
    let ?s2 = "broadcastLobby ?g1 (put_game r ?g1 s)"
    have f2: "timers_fresh ?s2"
    proof (rule fresh_put [OF assms(1)])
      show "heap ?s2 = (heap s)(r \<mapsto> ?g1)"
        by (simp add: broadcastLobby_def emit_def put_game_def)
      show "next_timer s \<le> next_timer ?s2"
        by (simp add: broadcastLobby_def emit_def put_game_def)
      fix rd1 assume "round' ?g1 = Some rd1"
      then have "timer rd1 < next_timer s" using fresh_entry [OF assms(1) Some] by simp
      then show "timer rd1 < next_timer ?s2"
        by (simp add: broadcastLobby_def emit_def put_game_def)
    qed
    consider (host) "hostSocketId g = sock"
      | (player) "hostSocketId g \<noteq> sock" "map_of (players g) sock \<noteq> None"
      | (skip) "hostSocketId g \<noteq> sock" "map_of (players g) sock = None"
      by blast
    then show ?thesis
    proof cases
      case host
      then have "heap s1 = heap s" "next_timer s1 = next_timer s"
        using Cons.prems e Some by (auto simp: Let_def emit_def)
      then show ?thesis using fresh_frame [OF assms(1)] by simp
    next
      case player
      show ?thesis
      proof (cases "\<exists>rd. round' g = Some rd \<and> length (players ?g1) = 0")
        case True
        then obtain rd where "round' g = Some rd" "length (players ?g1) = 0" by blast
        then have "endRound r (clearTimeout (timer rd) ?s2) = Inr s1"
          using Cons.prems e Some player by (simp add: Let_def)
        then show ?thesis using endRound_fresh clearTimeout_fresh [OF f2] by blast
      next
        case False
        then have "s1 = ?s2"
          using Cons.prems e Some player by (auto simp: Let_def split: option.splits if_splits)
        then show ?thesis using f2 by simp
      qed
    next
      case skip
      then show ?thesis using Cons e Some by simp
    qed
  qed
qed

lemma put_game_fresh:
  assumes "timers_fresh s" and "heap s r = Some g"
    and "\<And>rd1. round' g1 = Some rd1 \<Longrightarrow> \<exists>rd. round' g = Some rd \<and> timer rd1 = timer rd"
  shows "timers_fresh (put_game r g1 s)"
proof (rule fresh_put [OF assms(1)])
  show "heap (put_game r g1 s) = (heap s)(r \<mapsto> g1)" by (simp add: put_game_def)
  show "next_timer s \<le> next_timer (put_game r g1 s)" by (simp add: put_game_def)
  fix rd1 assume "round' g1 = Some rd1"
  then obtain rd where "round' g = Some rd" "timer rd1 = timer rd" using assms(3) by blast
  then show "timer rd1 < next_timer (put_game r g1 s)"
    using fresh_entry [OF assms(1,2)] by (simp add: put_game_def)
qed

lemma host_createGame_fresh:
  assumes "timers_fresh s" and "host_createGame sock has_ack payload nid rnd s = Inr s1"
  shows "timers_fresh s1"
proof (cases "length (games s) \<ge> MAX_GAMES \<or> \<not> validateQuizPayload payload")
  case True
  then have "heap s1 = heap s" "next_timer s1 = next_timer s"
    using assms(2) by (auto simp: host_createGame_def send_ack_def emit_def split: if_splits)
  then show ?thesis using fresh_frame [OF assms(1)] by simp
next
  case False
  let ?g = "createGameState sock payload nid rnd"
  have "heap s1 = (heap s)(next_ref s \<mapsto> ?g)" "next_timer s1 = next_timer s"
    using False assms(2)
    by (auto simp: host_createGame_def send_ack_def emit_def broadcastLobby_def Let_def)
  moreover have "round' ?g = None" by (simp add: createGameState_def Let_def)
  ultimately show ?thesis by (intro fresh_put [OF assms(1)]) auto
qed

lemma host_startGame_fresh:
  assumes "timers_fresh s" and "host_startGame sock gameId now s = Inr s1"
  shows "timers_fresh s1"
proof (cases "\<exists>r g. map_of (games s) gameId = Some r \<and> heap s r = Some g
    \<and> hostSocketId g = sock \<and> \<not> started g")
  case False
  then have "s1 = s" using assms(2)
    by (auto simp: host_startGame_def split: option.splits if_splits)
  then show ?thesis using assms(1) by simp
next
  case True
  then obtain r g where r: "map_of (games s) gameId = Some r" and g: "heap s r = Some g"
    and c: "hostSocketId g = sock" "\<not> started g"
    by blast
  let ?g1 = "g\<lparr>started := True\<rparr>"
  let ?s2 = "emit (game_id ?g1) (GameStarted (title ?g1)) (put_game r ?g1 s)"
  have run: "startQuestion r now ?s2 = Inr s1"
    using assms(2) r g c by (simp add: host_startGame_def Let_def)
  have "timers_fresh ?s2"
    by (rule emit_fresh, rule put_game_fresh [OF assms(1) g]) simp
  then show ?thesis using startQuestion_fresh run by blast
qed

lemma host_next_fresh:
  assumes "timers_fresh s" and "host_next sock gameId now s = Inr s1"
  shows "timers_fresh s1"
  using assms
  by (auto simp: host_next_def split: option.splits if_splits dest: startQuestion_fresh)

lemma player_join_fresh:
  assumes "timers_fresh s" and "player_join sock has_ack gameId nm s = Inr s1"
  shows "timers_fresh s1"
proof (cases "\<exists>r g. map_of (games s) gameId = Some r \<and> heap s r = Some g
    \<and> \<not> started g \<and> \<not> length (players g) \<ge> MAX_PLAYERS_PER_GAME")
  case False
  then have "heap s1 = heap s" "next_timer s1 = next_timer s"
    using assms(2)
    by (auto simp: player_join_def send_ack_def emit_def split: option.splits if_splits)
  then show ?thesis using fresh_frame [OF assms(1)] by simp
next
  case True
  then obtain r g where r: "map_of (games s) gameId = Some r" and g: "heap s r = Some g"
    and c: "\<not> started g" "\<not> length (players g) \<ge> MAX_PLAYERS_PER_GAME"
    by blast
  let ?g1 = "g\<lparr>players := AList.update sock
      \<lparr>name = sanitizeName nm, score = 0, answeredAtMs = None,
       selectedOptionId = JNull, lastCorrect = False\<rparr> (players g)\<rparr>"
  have p: "timers_fresh (put_game r ?g1 s)"
    by (rule put_game_fresh [OF assms(1) g]) simp
  have "heap s1 = heap (put_game r ?g1 s)" "next_timer s1 = next_timer (put_game r ?g1 s)"
    using assms(2) r g c
    by (auto simp: player_join_def send_ack_def emit_def broadcastLobby_def Let_def)
  then show ?thesis using fresh_frame [OF p] by simp
qed

lemma player_answer_fresh:
  assumes "timers_fresh s"
    and "player_answer sock gameId questionId optionId now s = Inr s1"
  shows "timers_fresh s1"
proof (cases "\<exists>r g rd p q. map_of (games s) gameId = Some r \<and> heap s r = Some g
    \<and> round' g = Some rd \<and> map_of (players g) sock = Some p
    \<and> question_at g (currentIndex g) = Some q \<and> JStr (id' q) = questionId
    \<and> selectedOptionId p = JNull")
  case False
  then have "s1 = s" using assms(2)
    by (auto simp: player_answer_def split: option.splits if_splits)
  then show ?thesis using assms(1) by simp
next
  case True
  then obtain r g rd p q where r: "map_of (games s) gameId = Some r" and g: "heap s r = Some g"
    and c: "round' g = Some rd" "map_of (players g) sock = Some p"
      "question_at g (currentIndex g) = Some q" "JStr (id' q) = questionId"
      "selectedOptionId p = JNull"
    by blast
  let ?g1 = "g\<lparr>players := AList.update sock
      (p\<lparr>selectedOptionId := optionId, answeredAtMs := Some now\<rparr>) (players g),
      round' := Some (rd\<lparr>awaiting := awaiting rd - {sock}\<rparr>)\<rparr>"
  let ?s2 = "emit sock (PlayerLocked optionId) (put_game r ?g1 s)"
  have p: "timers_fresh ?s2"
    by (rule emit_fresh, rule put_game_fresh [OF assms(1) g]) (auto simp: c)
  have "maybeEndEarly r ?s2 = Inr s1"
    using assms(2) r g c by (simp add: player_answer_def Let_def)
  from maybeEndEarly_fresh [OF p this] show ?thesis .
qed

lemma step_fresh:
  assumes "timers_fresh s" and "step s ev = Inr s1"
  shows "timers_fresh s1"
proof (cases ev)
  case (Request sock ip now has_ack req)
  let ?s0 = "s\<lparr>rateLimitMap := snd (rateLimit (rateLimitMap s) ip now)\<rparr>"
  have s0: "timers_fresh ?s0" using assms(1) by (simp add: timers_fresh_def)
  show ?thesis
  proof (cases "fst (rateLimit (rateLimitMap s) ip now)")
    case False
    then have "heap s1 = heap ?s0" "next_timer s1 = next_timer ?s0"
      using assms(2) Request
      by (auto simp: step_def wrapRateLimit_def Let_def emit_def split: if_splits)
    then show ?thesis using fresh_frame [OF s0] by simp
  next
    case True
    then have h: "handle sock has_ack req ?s0 = Inr s1"
      using assms(2) Request by (simp add: step_def wrapRateLimit_def Let_def)
    show ?thesis
    proof (cases req)
      case (CreateGame payload nid rnd)
      then show ?thesis using h host_createGame_fresh [OF s0] by (simp add: handle_def)
    next
      case (StartGame gameId t)
      then show ?thesis using h host_startGame_fresh [OF s0] by (simp add: handle_def)
    next
      case (Next gameId t)
      then show ?thesis using h host_next_fresh [OF s0] by (simp add: handle_def)
    next
      case (Join gameId nm)
      then show ?thesis using h player_join_fresh [OF s0] by (simp add: handle_def)
    next
      case (Answer gameId questionId optionId t)
      then show ?thesis using h player_answer_fresh [OF s0] by (simp add: handle_def)
    qed
  qed
next
  case (Disconnect sock)
  then have "disconnect_loop sock (games s) s = Inr s1"
    using assms(2) by (simp add: step_def disconnect_def)
  then show ?thesis using disconnect_loop_fresh assms(1) by blast
next
  case (TimerFire h)
  show ?thesis
  proof (cases "timers s h")
    case None
    then show ?thesis using assms TimerFire by (simp add: step_def)
  next
    case (Some r)
    then have "endRound r (clearTimeout h s) = Inr s1"
      using assms(2) TimerFire by (simp add: step_def)
    then show ?thesis using endRound_fresh clearTimeout_fresh [OF assms(1)] by blast
  qed
qed

lemma reachable_fresh: "reachable s \<Longrightarrow> timers_fresh s"
proof (induction rule: reachable.induct)
  case reachable_init
  show ?case by (simp add: timers_fresh_def init_server_def)
next
  case (reachable_step s ev s1)
  then show ?case using step_fresh by blast
qed

lemma endRound_pending:
  "pending_fresh s \<Longrightarrow> endRound r s = Inr s1 \<Longrightarrow> pending_fresh s1"
  by (auto simp: pending_fresh_def endRound_def Let_def emit_def put_game_def clearTimeout_def
      split: option.splits if_splits)

lemma clearTimeout_pending: "pending_fresh s \<Longrightarrow> pending_fresh (clearTimeout h s)"
  by (simp add: pending_fresh_def clearTimeout_def)

lemma maybeEndEarly_pending:
  "pending_fresh s \<Longrightarrow> maybeEndEarly r s = Inr s1 \<Longrightarrow> pending_fresh s1"
  by (auto simp: maybeEndEarly_def split: option.splits if_splits
      dest: endRound_pending [OF clearTimeout_pending])

lemma startQuestion_timers:
  assumes "startQuestion r now s = Inr s1"
  shows "(timers s1 = timers s \<and> next_timer s1 = next_timer s)
     \<or> (timers s1 = (timers s)(next_timer s \<mapsto> r) \<and> next_timer s1 = next_timer s + 1)"
  using assms
  by (auto simp: startQuestion_def Let_def emit_def put_game_def setTimeout_def endGame_def
      split: option.splits if_splits)

lemma startQuestion_pending:
  assumes "pending_fresh s" and "startQuestion r now s = Inr s1"
  shows "pending_fresh s1"
  using startQuestion_timers [OF assms(2)]
proof
  assume "timers s1 = timers s \<and> next_timer s1 = next_timer s"
  then show ?thesis using assms(1) by (simp add: pending_fresh_def)
next
  assume a: "timers s1 = (timers s)(next_timer s \<mapsto> r) \<and> next_timer s1 = next_timer s + 1"
  show ?thesis
    unfolding pending_fresh_def
  proof (intro allI impI)
    fix h assume "timers s1 h \<noteq> None"
    then have "h = next_timer s \<or> timers s h \<noteq> None" using a by (auto split: if_splits)
    then show "h < next_timer s1" using a assms(1) unfolding pending_fresh_def by fastforce
  qed
qed

lemma pending_frame:
  "pending_fresh s \<Longrightarrow> timers s1 = timers s \<Longrightarrow> next_timer s1 = next_timer s \<Longrightarrow>
   pending_fresh s1"
  by (simp add: pending_fresh_def)

lemma handle_pending:
  assumes "pending_fresh s" and "handle sock has_ack req s = Inr s1"
  shows "pending_fresh s1"
proof (cases req)
  case (CreateGame payload nid rnd)
  then have "timers s1 = timers s" "next_timer s1 = next_timer s"
    using assms(2)
    by (auto simp: handle_def host_createGame_def send_ack_def emit_def broadcastLobby_def
        Let_def split: if_splits)
  then show ?thesis using pending_frame [OF assms(1)] by simp
next
  case (StartGame gameId t)
  then show ?thesis using assms
    by (auto simp: handle_def host_startGame_def Let_def split: option.splits if_splits
        dest!: startQuestion_pending [rotated] simp: pending_fresh_def emit_def put_game_def)
next
  case (Next gameId t)
  then show ?thesis using assms
    by (auto simp: handle_def host_next_def split: option.splits if_splits
        dest: startQuestion_pending)
next
  case (Join gameId nm)
  then have "timers s1 = timers s" "next_timer s1 = next_timer s"
    using assms(2)
    by (auto simp: handle_def player_join_def send_ack_def emit_def broadcastLobby_def
        put_game_def Let_def split: option.splits if_splits)
  then show ?thesis using pending_frame [OF assms(1)] by simp
next
  case (Answer gameId questionId optionId t)
  then show ?thesis using assms
    by (auto simp: handle_def player_answer_def Let_def split: option.splits if_splits
        dest!: maybeEndEarly_pending [rotated] simp: pending_fresh_def emit_def put_game_def)
qed

lemma disconnect_loop_pending:
  "pending_fresh s \<Longrightarrow> disconnect_loop sock es s = Inr s1 \<Longrightarrow> pending_fresh s1"
proof (induction es)
  case Nil
  then show ?case by simp
next
  case (Cons e es)
  obtain k r where e: "e = (k, r)" by (cases e)
  have base: "pending_fresh (clearTimeout h (broadcastLobby g1 (put_game r g1 s)))" for h g1
    using Cons.prems(1)
    by (simp add: pending_fresh_def clearTimeout_def broadcastLobby_def emit_def put_game_def)
  have base2: "pending_fresh (broadcastLobby g1 (put_game r g1 s))" for g1
    using Cons.prems(1)
    by (simp add: pending_fresh_def broadcastLobby_def emit_def put_game_def)
  show ?case
    using Cons e base2
    by (auto simp: Let_def split: option.splits if_splits
        dest: endRound_pending [OF base] simp: pending_fresh_def emit_def)
qed

lemma step_pending:
  assumes "pending_fresh s" and "step s ev = Inr s1"
  shows "pending_fresh s1"
proof (cases ev)
  case (Request sock ip now has_ack req)
  have s0: "pending_fresh (s\<lparr>rateLimitMap := m\<rparr>)" for m
    using assms(1) by (simp add: pending_fresh_def)
  show ?thesis
    using assms(2) Request s0
    by (auto simp: step_def wrapRateLimit_def Let_def split: if_splits
        dest: handle_pending [OF s0] simp: pending_fresh_def emit_def)
next
  case (Disconnect sock)
  then show ?thesis using assms disconnect_loop_pending by (auto simp: step_def disconnect_def)
next
  case (TimerFire h)
  then show ?thesis using assms
    by (auto simp: step_def split: option.splits
        dest: endRound_pending [OF clearTimeout_pending])
qed

lemma reachable_pending: "reachable s \<Longrightarrow> pending_fresh s"
proof (induction rule: reachable.induct)
  case reachable_init
  show ?case by (simp add: pending_fresh_def init_server_def)
next
  case (reachable_step s ev s1)
  then show ?case using step_pending by blast
qed

lemma startQuestion_round:
  assumes "heap s r = Some g" and "- 1 \<le> currentIndex g"
    and "currentIndex g + 1 < int (length (questions g))"
  shows "\<exists>s1 g1 rd1. startQuestion r now s = Inr s1 \<and> heap s1 r = Some g1
     \<and> started g1 = started g \<and> currentIndex g1 = currentIndex g + 1
     \<and> round' g1 = Some rd1 \<and> timer rd1 = next_timer s
     \<and> timers s1 = (timers s)(next_timer s \<mapsto> r)"
  using assms
  by (simp add: startQuestion_def Let_def emit_def put_game_def setTimeout_def question_at_def)

lemma startQuestion_over:
  assumes "heap s r = Some g" and "int (length (questions g)) \<le> currentIndex g + 1"
  shows "\<exists>s1 g1. startQuestion r now s = Inr s1 \<and> heap s1 r = Some g1
     \<and> games s1 = AList.delete (game_id g) (games s)
     \<and> round' g1 = round' g \<and> started g1 = started g
     \<and> currentIndex g1 = currentIndex g + 1
     \<and> outbox s1 = outbox s @ [(game_id g, GameOver (getPublicLeaderboard g))]"
  using assms
  by (simp add: startQuestion_def Let_def endGame_def emit_def put_game_def
      getPublicLeaderboard_def)

text \<open>
  C9, as stated, fails at the last question. The host has created a game with one
  question and started it; during the round the host asks for the next question. There is
  none: the game is over and leaves the registry, and the round of the game object is
  not replaced, it is still the one that started at 3000.
\<close>

theorem host_next_last_counterexample:
  "map_of (games (after [ex_create, ex_start])) ''ABCD'' = Some 0
   \<and> hostSocketId (the (heap (after [ex_create, ex_start]) 0)) = ''h''
   \<and> round' (the (heap (after [ex_create, ex_start]) 0)) \<noteq> None
   \<and> startMs (the (round' (the (heap (after [ex_create, ex_start]) 0)))) = 3000
   \<and> games (after ex_last_next) = []
   \<and> round' (the (heap (after ex_last_next) 0)) = round' (the (heap (after [ex_create, ex_start]) 0))
   \<and> startMs (the (round' (the (heap (after ex_last_next) 0)))) = 3000
   \<and> currentIndex (the (heap (after ex_last_next) 0)) = 1
   \<and> snd (last (outbox (after ex_last_next))) = GameOver []"
  by (simp add: model_defs ex_last_next_def)

text \<open>
  C9, amended. In a reachable state the host's next command does nothing for a game the
  registry does not list, and nothing when the caller is not the recorded host of the
  game. When the recorded host of a listed game calls it, the handler runs
  \<open>startQuestion\<close>, whatever \<open>started\<close> and the round are. When a next question exists, the
  game stays listed and gets a new round, started now, with a new pending timer, and
  \<open>started\<close> keeps its value (false stays false); no pending timer is cancelled: the timer
  of a round that was active is another timer than the new one and is as pending as it
  was before. When no next question exists, the game is over: \<open>game:over\<close> is sent, the
  game leaves the registry, and its round is what it was, no new round is made.
\<close>

theorem host_next_advance:
  assumes "reachable s"
  shows "(map_of (games s) gameId = None \<longrightarrow> host_next sock gameId now s = Inr s)
     \<and> (map_of (games s) gameId = Some r \<longrightarrow>
         (\<exists>g. heap s r = Some g
            \<and> (hostSocketId g \<noteq> sock \<longrightarrow> host_next sock gameId now s = Inr s)
            \<and> (hostSocketId g = sock \<longrightarrow>
                 host_next sock gameId now s = startQuestion r now s
               \<and> (currentIndex g + 1 < int (length (questions g)) \<longrightarrow>
                   (\<exists>s1 g1 rd1. host_next sock gameId now s = Inr s1 \<and> heap s1 r = Some g1
                      \<and> map_of (games s1) gameId = Some r
                      \<and> started g1 = started g \<and> currentIndex g1 = currentIndex g + 1
                      \<and> round' g1 = Some rd1 \<and> startMs rd1 = now
                      \<and> timers s1 (timer rd1) = Some r
                      \<and> (\<forall>h. timers s h \<noteq> None \<longrightarrow> timers s1 h = timers s h)
                      \<and> (\<forall>rd. round' g = Some rd \<longrightarrow>
                            timer rd1 \<noteq> timer rd
                            \<and> timers s1 (timer rd) = timers s (timer rd))))
               \<and> (int (length (questions g)) \<le> currentIndex g + 1 \<longrightarrow>
                   (\<exists>s1 g1. host_next sock gameId now s = Inr s1 \<and> heap s1 r = Some g1
                      \<and> map_of (games s1) gameId = None
                      \<and> started g1 = started g \<and> currentIndex g1 = currentIndex g + 1
                      \<and> round' g1 = round' g
                      \<and> outbox s1
                          = outbox s @ [(gameId, GameOver (getPublicLeaderboard g))])))))"
proof (intro conjI impI)
  assume "map_of (games s) gameId = None"
  then show "host_next sock gameId now s = Inr s" by (simp add: host_next_def)
next
  assume m: "map_of (games s) gameId = Some r"
  have mem: "(gameId, r) \<in> set (games s)" using m by (rule map_of_SomeD)
  have reg: "reg_ok s" using reachable_inv [OF assms] by simp
  obtain g where g: "heap s r = Some g"
    using reg mem unfolding reg_ok_def by force
  have gid: "game_id g = gameId" and lo: "- 1 \<le> currentIndex g"
    using reg_ok_entry [OF reg mem g] by simp_all
  have other: "host_next sock gameId now s = Inr s" if "hostSocketId g \<noteq> sock"
    using m g that by (simp add: host_next_def)
  have eq: "host_next sock gameId now s = startQuestion r now s" if "hostSocketId g = sock"
    using m g that by (simp add: host_next_def)
  have more: "\<exists>s1 g1 rd1. host_next sock gameId now s = Inr s1 \<and> heap s1 r = Some g1
        \<and> map_of (games s1) gameId = Some r
        \<and> started g1 = started g \<and> currentIndex g1 = currentIndex g + 1
        \<and> round' g1 = Some rd1 \<and> startMs rd1 = now
        \<and> timers s1 (timer rd1) = Some r
        \<and> (\<forall>h. timers s h \<noteq> None \<longrightarrow> timers s1 h = timers s h)
        \<and> (\<forall>rd. round' g = Some rd \<longrightarrow>
              timer rd1 \<noteq> timer rd \<and> timers s1 (timer rd) = timers s (timer rd))"
    if h: "hostSocketId g = sock" and lt: "currentIndex g + 1 < int (length (questions g))"
  proof -
    from startQuestion_round [OF g lo lt, of now] obtain s1 g1 rd1 where
      a: "startQuestion r now s = Inr s1" "heap s1 r = Some g1" "started g1 = started g"
        "currentIndex g1 = currentIndex g + 1" "round' g1 = Some rd1"
      and t: "timer rd1 = next_timer s" "timers s1 = (timers s)(next_timer s \<mapsto> r)"
      by blast
    have b: "games s1 = games s \<and> startMs rd1 = now"
      using a g lo lt
      by (auto simp: startQuestion_def Let_def emit_def put_game_def setTimeout_def
          question_at_def)
    have fr: "timers_fresh s" using reachable_fresh [OF assms] .
    have old: "timer rd1 \<noteq> timer rd \<and> timers s1 (timer rd) = timers s (timer rd)"
      if "round' g = Some rd" for rd
      using fresh_entry [OF fr g that] t by simp
    have pend: "timers s1 h = timers s h" if "timers s h \<noteq> None" for h
    proof -
      have "h \<noteq> next_timer s"
        using reachable_pending [OF assms] that unfolding pending_fresh_def by fastforce
      then show ?thesis using t by simp
    qed
    show ?thesis unfolding eq [OF h] using a t b m old pend by auto
  qed
  have over: "\<exists>s1 g1. host_next sock gameId now s = Inr s1 \<and> heap s1 r = Some g1
        \<and> map_of (games s1) gameId = None
        \<and> started g1 = started g \<and> currentIndex g1 = currentIndex g + 1
        \<and> round' g1 = round' g
        \<and> outbox s1 = outbox s @ [(gameId, GameOver (getPublicLeaderboard g))]"
    if h: "hostSocketId g = sock" and ge: "int (length (questions g)) \<le> currentIndex g + 1"
  proof -
    from startQuestion_over [OF g ge, of now] obtain s1 g1 where
      a: "startQuestion r now s = Inr s1" "heap s1 r = Some g1"
        "games s1 = AList.delete (game_id g) (games s)"
        "round' g1 = round' g" "started g1 = started g" "currentIndex g1 = currentIndex g + 1"
        "outbox s1 = outbox s @ [(game_id g, GameOver (getPublicLeaderboard g))]"
      by blast
    have "map_of (games s1) gameId = None"
      using a(3) gid by (simp add: delete_conv)
    then show ?thesis unfolding eq [OF h] using a gid by auto
  qed
  show "\<exists>g. heap s r = Some g
      \<and> (hostSocketId g \<noteq> sock \<longrightarrow> host_next sock gameId now s = Inr s)
      \<and> (hostSocketId g = sock \<longrightarrow>
           host_next sock gameId now s = startQuestion r now s
         \<and> (currentIndex g + 1 < int (length (questions g)) \<longrightarrow>
             (\<exists>s1 g1 rd1. host_next sock gameId now s = Inr s1 \<and> heap s1 r = Some g1
                \<and> map_of (games s1) gameId = Some r
                \<and> started g1 = started g \<and> currentIndex g1 = currentIndex g + 1
                \<and> round' g1 = Some rd1 \<and> startMs rd1 = now
                \<and> timers s1 (timer rd1) = Some r
                \<and> (\<forall>h. timers s h \<noteq> None \<longrightarrow> timers s1 h = timers s h)
                \<and> (\<forall>rd. round' g = Some rd \<longrightarrow>
                      timer rd1 \<noteq> timer rd
                      \<and> timers s1 (timer rd) = timers s (timer rd))))
         \<and> (int (length (questions g)) \<le> currentIndex g + 1 \<longrightarrow>
             (\<exists>s1 g1. host_next sock gameId now s = Inr s1 \<and> heap s1 r = Some g1
                \<and> map_of (games s1) gameId = None
                \<and> started g1 = started g \<and> currentIndex g1 = currentIndex g + 1
                \<and> round' g1 = round' g
                \<and> outbox s1
                    = outbox s @ [(gameId, GameOver (getPublicLeaderboard g))])))"
    using g other eq more over by blast
qed

lemma ex_lobby:
  "map_of (games (after [ex_create])) ''ABCD'' = Some 0
   \<and> heap (after [ex_create]) 0 \<noteq> None
   \<and> hostSocketId (the (heap (after [ex_create]) 0)) = ''h''
   \<and> \<not> started (the (heap (after [ex_create]) 0))
   \<and> currentIndex (the (heap (after [ex_create]) 0)) = - 1
   \<and> length (questions (the (heap (after [ex_create]) 0))) = 1"
  by (simp add: model_defs)

lemma ex_mid_round:
  "map_of (games (after [ex_create2, ex_start])) ''ABCD'' = Some 0
   \<and> heap (after [ex_create2, ex_start]) 0 \<noteq> None
   \<and> hostSocketId (the (heap (after [ex_create2, ex_start]) 0)) = ''h''
   \<and> currentIndex (the (heap (after [ex_create2, ex_start]) 0)) = 0
   \<and> length (questions (the (heap (after [ex_create2, ex_start]) 0))) = 2
   \<and> round' (the (heap (after [ex_create2, ex_start]) 0)) \<noteq> None
   \<and> timer (the (round' (the (heap (after [ex_create2, ex_start]) 0)))) = 0
   \<and> timers (after [ex_create2, ex_start]) 0 = Some 0"
  by (simp add: model_defs ex_create2_def)

lemma ex_last_round:
  "map_of (games (after [ex_create, ex_start])) ''ABCD'' = Some 0
   \<and> heap (after [ex_create, ex_start]) 0 \<noteq> None
   \<and> hostSocketId (the (heap (after [ex_create, ex_start]) 0)) = ''h''
   \<and> currentIndex (the (heap (after [ex_create, ex_start]) 0)) = 0
   \<and> length (questions (the (heap (after [ex_create, ex_start]) 0))) = 1
   \<and> round' (the (heap (after [ex_create, ex_start]) 0)) \<noteq> None"
  by (simp add: model_defs)

lemma ex_lobby_other: "map_of (games (after [ex_create])) ''ZZZZ'' = None"
  by (simp add: model_defs)

theorem host_next_advance_witness:
  "host_next ''h'' ''ZZZZ'' 1500 (after [ex_create]) = Inr (after [ex_create])
   \<and> host_next ''p1'' ''ABCD'' 1500 (after [ex_create]) = Inr (after [ex_create])
   \<and> (\<exists>s1 g1. host_next ''h'' ''ABCD'' 1500 (after [ex_create]) = Inr s1 \<and> heap s1 0 = Some g1
       \<and> \<not> started g1 \<and> round' g1 \<noteq> None)
   \<and> (\<exists>s1 g1 rd1. host_next ''h'' ''ABCD'' 4000 (after [ex_create2, ex_start]) = Inr s1
       \<and> heap s1 0 = Some g1 \<and> round' g1 = Some rd1 \<and> timer rd1 \<noteq> 0
       \<and> timers s1 0 = Some 0 \<and> timers s1 (timer rd1) = Some 0)
   \<and> (\<exists>s1 g1. host_next ''h'' ''ABCD'' 4000 (after [ex_create, ex_start]) = Inr s1
       \<and> heap s1 0 = Some g1 \<and> map_of (games s1) ''ABCD'' = None
       \<and> currentIndex g1 = 1 \<and> round' g1 \<noteq> None)"
proof (intro conjI)
  show "host_next ''h'' ''ZZZZ'' 1500 (after [ex_create]) = Inr (after [ex_create])"
    using host_next_advance [OF reachable_after, where evs1 = "[ex_create]"
        and gameId = "''ZZZZ''" and sock = "''h''" and now = 1500 and r = 0]
      ex_lobby_other by simp
next
  let ?s = "after [ex_create]"
  have m: "map_of (games ?s) ''ABCD'' = Some 0" using ex_lobby by simp
  from host_next_advance [OF reachable_after, where evs1 = "[ex_create]"
      and gameId = "''ABCD''" and sock = "''p1''" and now = 1500 and r = 0] m
  obtain g where "heap ?s 0 = Some g"
    "hostSocketId g \<noteq> ''p1'' \<longrightarrow> host_next ''p1'' ''ABCD'' 1500 ?s = Inr ?s"
    by blast
  then show "host_next ''p1'' ''ABCD'' 1500 ?s = Inr ?s" using ex_lobby by simp
next
  let ?s = "after [ex_create]"
  have m: "map_of (games ?s) ''ABCD'' = Some 0" using ex_lobby by simp
  from host_next_advance [OF reachable_after, where evs1 = "[ex_create]"
      and gameId = "''ABCD''" and sock = "''h''" and now = 1500 and r = 0] m
  obtain g where g: "heap ?s 0 = Some g"
    and n: "hostSocketId g = ''h'' \<longrightarrow> (currentIndex g + 1 < int (length (questions g)) \<longrightarrow>
      (\<exists>s1 g1 rd1. host_next ''h'' ''ABCD'' 1500 ?s = Inr s1 \<and> heap s1 0 = Some g1
         \<and> started g1 = started g \<and> round' g1 = Some rd1))"
    by blast
  have "hostSocketId g = ''h''" "currentIndex g + 1 < int (length (questions g))"
    "\<not> started g"
    using ex_lobby g by simp_all
  then show "\<exists>s1 g1. host_next ''h'' ''ABCD'' 1500 ?s = Inr s1 \<and> heap s1 0 = Some g1
       \<and> \<not> started g1 \<and> round' g1 \<noteq> None"
    using n by auto
next
  let ?s = "after [ex_create2, ex_start]"
  have m: "map_of (games ?s) ''ABCD'' = Some 0" using ex_mid_round by simp
  from host_next_advance [OF reachable_after, where evs1 = "[ex_create2, ex_start]"
      and gameId = "''ABCD''" and sock = "''h''" and now = 4000 and r = 0] m
  obtain g where g: "heap ?s 0 = Some g"
    and n: "hostSocketId g = ''h'' \<longrightarrow> (currentIndex g + 1 < int (length (questions g)) \<longrightarrow>
      (\<exists>s1 g1 rd1. host_next ''h'' ''ABCD'' 4000 ?s = Inr s1 \<and> heap s1 0 = Some g1
         \<and> round' g1 = Some rd1 \<and> timers s1 (timer rd1) = Some 0
         \<and> (\<forall>rd. round' g = Some rd \<longrightarrow>
               timer rd1 \<noteq> timer rd \<and> timers s1 (timer rd) = timers ?s (timer rd))))"
    by blast
  have v: "hostSocketId g = ''h''" "currentIndex g + 1 < int (length (questions g))"
    using ex_mid_round g by simp_all
  obtain rd where rd: "round' g = Some rd" using ex_mid_round g by auto
  have w: "timer rd = 0" "timers ?s 0 = Some 0" using ex_mid_round g rd by simp_all
  from n v obtain s1 g1 rd1 where a: "host_next ''h'' ''ABCD'' 4000 ?s = Inr s1"
    "heap s1 0 = Some g1" "round' g1 = Some rd1" "timers s1 (timer rd1) = Some 0"
    and old: "\<forall>rd. round' g = Some rd \<longrightarrow>
        timer rd1 \<noteq> timer rd \<and> timers s1 (timer rd) = timers ?s (timer rd)"
    by blast
  from old rd w have "timer rd1 \<noteq> 0 \<and> timers s1 0 = Some 0" by auto
  then show "\<exists>s1 g1 rd1. host_next ''h'' ''ABCD'' 4000 ?s = Inr s1
       \<and> heap s1 0 = Some g1 \<and> round' g1 = Some rd1 \<and> timer rd1 \<noteq> 0
       \<and> timers s1 0 = Some 0 \<and> timers s1 (timer rd1) = Some 0"
    using a by blast
next
  let ?s = "after [ex_create, ex_start]"
  have m: "map_of (games ?s) ''ABCD'' = Some 0" using ex_last_round by simp
  from host_next_advance [OF reachable_after, where evs1 = "[ex_create, ex_start]"
      and gameId = "''ABCD''" and sock = "''h''" and now = 4000 and r = 0] m
  obtain g where g: "heap ?s 0 = Some g"
    and n: "hostSocketId g = ''h'' \<longrightarrow> (int (length (questions g)) \<le> currentIndex g + 1 \<longrightarrow>
      (\<exists>s1 g1. host_next ''h'' ''ABCD'' 4000 ?s = Inr s1 \<and> heap s1 0 = Some g1
         \<and> map_of (games s1) ''ABCD'' = None
         \<and> currentIndex g1 = currentIndex g + 1 \<and> round' g1 = round' g))"
    by blast
  have v: "hostSocketId g = ''h''" "int (length (questions g)) \<le> currentIndex g + 1"
    "currentIndex g = 0" "round' g \<noteq> None"
    using ex_last_round g by simp_all
  show "\<exists>s1 g1. host_next ''h'' ''ABCD'' 4000 ?s = Inr s1
       \<and> heap s1 0 = Some g1 \<and> map_of (games s1) ''ABCD'' = None
       \<and> currentIndex g1 = 1 \<and> round' g1 \<noteq> None"
    using n v by auto
qed

subsection \<open>Answers\<close>

lemma endRound_outbox_len:
  "endRound r s = Inr s1 \<Longrightarrow> length (outbox s) \<le> length (outbox s1)"
  by (auto simp: endRound_def Let_def emit_def put_game_def clearTimeout_def
      split: option.splits)

lemma maybeEndEarly_outbox_len:
  "maybeEndEarly r s = Inr s1 \<Longrightarrow> length (outbox s) \<le> length (outbox s1)"
  by (auto simp: maybeEndEarly_def clearTimeout_def split: option.splits if_splits
      dest!: endRound_outbox_len)

lemma map_of_map_snd:
  "map_of (map (\<lambda>kp. (fst kp, f (snd kp))) ps) k = map_option f (map_of ps k)"
  by (induction ps) auto

lemma score_player_lastCorrect:
  "selectedOptionId p = JStr x \<Longrightarrow>
   lastCorrect (score_player q e p) \<longleftrightarrow> x \<in> set (correctOptionIds q)"
  by (simp add: score_player_def Let_def includes'_def)

lemma reveal_lastCorrect:
  assumes "heap s r = Some g" and "round' g = Some rd"
    and "question_at g (currentIndex g) = Some q"
    and "map_of (players g) sock = Some p" and "selectedOptionId p = JStr x"
  shows "\<exists>s1 g1 p1. endRound r s = Inr s1 \<and> heap s1 r = Some g1 \<and> round' g1 = None
     \<and> map_of (players g1) sock = Some p1
     \<and> (lastCorrect p1 \<longleftrightarrow> x \<in> set (correctOptionIds q))"
proof -
  from endRound_result [OF assms(1,2,3)] obtain s1 g1 where
    a: "endRound r s = Inr s1" "heap s1 r = Some g1" "round' g1 = None"
    and p: "players g1 = map (\<lambda>kp. (fst kp, score_player q (endMs rd) (snd kp))) (players g)"
    by blast
  have "map_of (players g1) sock = Some (score_player q (endMs rd) p)"
    unfolding p map_of_map_snd using assms(4) by simp
  then show ?thesis using a score_player_lastCorrect [OF assms(5)] by blast
qed

lemma answer_accepted:
  assumes "map_of (games s) gameId = Some r" and "heap s r = Some g"
    and "round' g = Some rd" and "map_of (players g) sock = Some p"
    and "question_at g (currentIndex g) = Some q" and "questionId = JStr (id' q)"
    and "selectedOptionId p = JNull"
  shows "\<exists>s1 g1. player_answer sock gameId questionId optionId now s = maybeEndEarly r s1
     \<and> heap s1 r = Some g1
     \<and> map_of (players g1) sock = Some (p\<lparr>selectedOptionId := optionId, answeredAtMs := Some now\<rparr>)
     \<and> round' g1 = Some (rd\<lparr>awaiting := awaiting rd - {sock}\<rparr>)
     \<and> currentIndex g1 = currentIndex g \<and> questions g1 = questions g
     \<and> outbox s1 = outbox s @ [(sock, PlayerLocked optionId)]"
proof -
  let ?g1 = "g\<lparr>players := AList.update sock
      (p\<lparr>selectedOptionId := optionId, answeredAtMs := Some now\<rparr>) (players g),
      round' := Some (rd\<lparr>awaiting := awaiting rd - {sock}\<rparr>)\<rparr>"
  let ?s1 = "emit sock (PlayerLocked optionId) (put_game r ?g1 s)"
  have "player_answer sock gameId questionId optionId now s = maybeEndEarly r ?s1"
    using assms by (simp add: player_answer_def Let_def)
  moreover have "heap ?s1 r = Some ?g1" by (simp add: emit_def put_game_def)
  moreover have "map_of (players ?g1) sock
      = Some (p\<lparr>selectedOptionId := optionId, answeredAtMs := Some now\<rparr>)"
    by (simp add: update_conv')
  moreover have "outbox ?s1 = outbox s @ [(sock, PlayerLocked optionId)]"
    by (simp add: emit_def put_game_def)
  ultimately show ?thesis
    by (intro exI [of _ ?s1] exI [of _ ?g1]) simp
qed

lemma answer_ignored_iff:
  "player_answer sock gameId questionId optionId now s = Inr s \<longleftrightarrow>
     (case map_of (games s) gameId of
        None \<Rightarrow> True
      | Some r \<Rightarrow>
          (case heap s r of
             None \<Rightarrow> True
           | Some g \<Rightarrow>
               round' g = None \<or> map_of (players g) sock = None
               \<or> (\<forall>q. question_at g (currentIndex g) = Some q \<longrightarrow> JStr (id' q) \<noteq> questionId)
               \<or> (\<exists>p. map_of (players g) sock = Some p \<and> selectedOptionId p \<noteq> JNull)))"
proof (cases "\<exists>r g rd p q. map_of (games s) gameId = Some r \<and> heap s r = Some g
    \<and> round' g = Some rd \<and> map_of (players g) sock = Some p
    \<and> question_at g (currentIndex g) = Some q \<and> questionId = JStr (id' q)
    \<and> selectedOptionId p = JNull")
  case True
  then obtain r g rd p q where c: "map_of (games s) gameId = Some r" "heap s r = Some g"
    "round' g = Some rd" "map_of (players g) sock = Some p"
    "question_at g (currentIndex g) = Some q" "questionId = JStr (id' q)"
    "selectedOptionId p = JNull"
    by blast
  from answer_accepted [OF c, of optionId now] obtain s1 where
    e: "player_answer sock gameId questionId optionId now s = maybeEndEarly r s1"
    and o: "outbox s1 = outbox s @ [(sock, PlayerLocked optionId)]"
    by blast
  have "player_answer sock gameId questionId optionId now s \<noteq> Inr s"
  proof
    assume "player_answer sock gameId questionId optionId now s = Inr s"
    then have "maybeEndEarly r s1 = Inr s" using e by simp
    from maybeEndEarly_outbox_len [OF this] show False using o by simp
  qed
  then show ?thesis using c by simp
next
  case False
  then have "player_answer sock gameId questionId optionId now s = Inr s"
    by (auto simp: player_answer_def split: option.splits)
  then show ?thesis using False by (auto split: option.splits)
qed

text \<open>
  C10. The answer handler returns the state unchanged, sending nothing, exactly when the
  game id is unknown, the game has no round, the socket is not a player of the game, the
  question id is not the id of the current question, or the player's selected option is
  already set. Otherwise any string \<open>x\<close> is taken as the option id without a look at the
  question's options: the player's record holds \<open>x\<close> and the time, the player leaves the
  awaiting set, the socket is sent "locked" with \<open>x\<close>, and \<open>maybeEndEarly\<close> runs; when
  others are still awaited that is the result, and when nobody is, the round ends at
  once. Whenever \<open>endRound\<close> scores a player whose selected option is the string \<open>x\<close>, the
  player's \<open>lastCorrect\<close> is whether \<open>x\<close> is among the question's correct option ids.
\<close>

theorem player_answer_guards:
  "(player_answer sock gameId questionId optionId now s = Inr s \<longleftrightarrow>
      (case map_of (games s) gameId of
         None \<Rightarrow> True
       | Some r \<Rightarrow>
           (case heap s r of
              None \<Rightarrow> True
            | Some g \<Rightarrow>
                round' g = None \<or> map_of (players g) sock = None
                \<or> (\<forall>q. question_at g (currentIndex g) = Some q \<longrightarrow> JStr (id' q) \<noteq> questionId)
                \<or> (\<exists>p. map_of (players g) sock = Some p \<and> selectedOptionId p \<noteq> JNull))))
   \<and> (map_of (games s) gameId = Some r \<and> heap s r = Some g \<and> round' g = Some rd
        \<and> map_of (players g) sock = Some p \<and> question_at g (currentIndex g) = Some q
        \<and> selectedOptionId p = JNull \<longrightarrow>
        (\<exists>s1 g1. player_answer sock gameId (JStr (id' q)) (JStr x) now s = maybeEndEarly r s1
           \<and> heap s1 r = Some g1
           \<and> map_of (players g1) sock
               = Some (p\<lparr>selectedOptionId := JStr x, answeredAtMs := Some now\<rparr>)
           \<and> round' g1 = Some (rd\<lparr>awaiting := awaiting rd - {sock}\<rparr>)
           \<and> outbox s1 = outbox s @ [(sock, PlayerLocked (JStr x))]
           \<and> (awaiting rd - {sock} \<noteq> {} \<longrightarrow>
                player_answer sock gameId (JStr (id' q)) (JStr x) now s = Inr s1)
           \<and> (awaiting rd - {sock} = {} \<longrightarrow>
                (\<exists>s2 g2 p2. player_answer sock gameId (JStr (id' q)) (JStr x) now s = Inr s2
                   \<and> heap s2 r = Some g2 \<and> round' g2 = None
                   \<and> map_of (players g2) sock = Some p2
                   \<and> (lastCorrect p2 \<longleftrightarrow> x \<in> set (correctOptionIds q))))))
   \<and> (heap s r = Some g \<and> round' g = Some rd \<and> question_at g (currentIndex g) = Some q
        \<and> map_of (players g) sock = Some p \<and> selectedOptionId p = JStr x \<longrightarrow>
        (\<exists>s1 g1 p1. endRound r s = Inr s1 \<and> heap s1 r = Some g1 \<and> round' g1 = None
           \<and> map_of (players g1) sock = Some p1
           \<and> (lastCorrect p1 \<longleftrightarrow> x \<in> set (correctOptionIds q))))"
proof (intro conjI impI)
  show "player_answer sock gameId questionId optionId now s = Inr s \<longleftrightarrow>
      (case map_of (games s) gameId of
         None \<Rightarrow> True
       | Some r \<Rightarrow>
           (case heap s r of
              None \<Rightarrow> True
            | Some g \<Rightarrow>
                round' g = None \<or> map_of (players g) sock = None
                \<or> (\<forall>q. question_at g (currentIndex g) = Some q \<longrightarrow> JStr (id' q) \<noteq> questionId)
                \<or> (\<exists>p. map_of (players g) sock = Some p \<and> selectedOptionId p \<noteq> JNull)))"
    by (rule answer_ignored_iff)
next
  assume "heap s r = Some g \<and> round' g = Some rd \<and> question_at g (currentIndex g) = Some q
      \<and> map_of (players g) sock = Some p \<and> selectedOptionId p = JStr x"
  then show "\<exists>s1 g1 p1. endRound r s = Inr s1 \<and> heap s1 r = Some g1 \<and> round' g1 = None
      \<and> map_of (players g1) sock = Some p1
      \<and> (lastCorrect p1 \<longleftrightarrow> x \<in> set (correctOptionIds q))"
    using reveal_lastCorrect by blast
next
  assume a: "map_of (games s) gameId = Some r \<and> heap s r = Some g \<and> round' g = Some rd
      \<and> map_of (players g) sock = Some p \<and> question_at g (currentIndex g) = Some q
      \<and> selectedOptionId p = JNull"
  let ?rd1 = "rd\<lparr>awaiting := awaiting rd - {sock}\<rparr>"
  let ?p1 = "p\<lparr>selectedOptionId := JStr x, answeredAtMs := Some now\<rparr>"
  from a answer_accepted [of s gameId r g rd sock p q "JStr (id' q)" "JStr x" now]
  obtain s1 g1 where
    e: "player_answer sock gameId (JStr (id' q)) (JStr x) now s = maybeEndEarly r s1"
    and h: "heap s1 r = Some g1" and pl: "map_of (players g1) sock = Some ?p1"
    and rd1: "round' g1 = Some ?rd1"
    and same: "currentIndex g1 = currentIndex g" "questions g1 = questions g"
    and ob: "outbox s1 = outbox s @ [(sock, PlayerLocked (JStr x))]"
    by auto
  have cont: "player_answer sock gameId (JStr (id' q)) (JStr x) now s = Inr s1"
    if "awaiting rd - {sock} \<noteq> {}"
    unfolding e using that h rd1 by (simp add: maybeEndEarly_def)
  have fin: "\<exists>s2 g2 p2. player_answer sock gameId (JStr (id' q)) (JStr x) now s = Inr s2
      \<and> heap s2 r = Some g2 \<and> round' g2 = None \<and> map_of (players g2) sock = Some p2
      \<and> (lastCorrect p2 \<longleftrightarrow> x \<in> set (correctOptionIds q))"
    if "awaiting rd - {sock} = {}"
  proof -
    have m: "maybeEndEarly r s1 = endRound r (clearTimeout (timer ?rd1) s1)"
      using that h rd1 by (simp add: maybeEndEarly_def)
    have hc: "heap (clearTimeout (timer ?rd1) s1) r = Some g1"
      using h by (simp add: clearTimeout_def)
    have "question_at g1 (currentIndex g1) = question_at g (currentIndex g)"
      using same by (simp add: question_at_def)
    then have q1: "question_at g1 (currentIndex g1) = Some q"
      using a by simp
    have sel: "selectedOptionId ?p1 = JStr x" by simp
    from reveal_lastCorrect [OF hc rd1 q1 pl sel] show ?thesis
      unfolding e m by blast
  qed
  show "\<exists>s1 g1. player_answer sock gameId (JStr (id' q)) (JStr x) now s = maybeEndEarly r s1
      \<and> heap s1 r = Some g1 \<and> map_of (players g1) sock = Some ?p1
      \<and> round' g1 = Some ?rd1
      \<and> outbox s1 = outbox s @ [(sock, PlayerLocked (JStr x))]
      \<and> (awaiting rd - {sock} \<noteq> {} \<longrightarrow>
           player_answer sock gameId (JStr (id' q)) (JStr x) now s = Inr s1)
      \<and> (awaiting rd - {sock} = {} \<longrightarrow>
           (\<exists>s2 g2 p2. player_answer sock gameId (JStr (id' q)) (JStr x) now s = Inr s2
              \<and> heap s2 r = Some g2 \<and> round' g2 = None
              \<and> map_of (players g2) sock = Some p2
              \<and> (lastCorrect p2 \<longleftrightarrow> x \<in> set (correctOptionIds q))))"
    using e h pl rd1 ob cont fin by blast
qed

lemma ex_answering:
  "map_of (games (after ex_two_players)) ''ABCD'' = Some 0
   \<and> heap (after ex_two_players) 0 \<noteq> None
   \<and> round' (the (heap (after ex_two_players) 0)) \<noteq> None
   \<and> awaiting (the (round' (the (heap (after ex_two_players) 0)))) = {''p2''}
   \<and> map_of (players (the (heap (after ex_two_players) 0))) ''p1'' \<noteq> None
   \<and> selectedOptionId (the (map_of (players (the (heap (after ex_two_players) 0))) ''p1''))
       = JStr ''b''
   \<and> map_of (players (the (heap (after ex_two_players) 0))) ''p2'' \<noteq> None
   \<and> selectedOptionId (the (map_of (players (the (heap (after ex_two_players) 0))) ''p2''))
       = JNull
   \<and> question_at (the (heap (after ex_two_players) 0))
        (currentIndex (the (heap (after ex_two_players) 0))) \<noteq> None
   \<and> id' (the (question_at (the (heap (after ex_two_players) 0))
        (currentIndex (the (heap (after ex_two_players) 0))))) = ''q1''
   \<and> correctOptionIds (the (question_at (the (heap (after ex_two_players) 0))
        (currentIndex (the (heap (after ex_two_players) 0))))) = [''b'']"
  by (simp add: model_defs ex_two_players_def)

theorem player_answer_guards_witness:
  "player_answer ''p1'' ''ABCD'' (JStr ''q1'') (JStr ''a'') 6000 (after ex_two_players)
     = Inr (after ex_two_players)
   \<and> (\<exists>s2 g2 p2. player_answer ''p2'' ''ABCD'' (JStr ''q1'') (JStr ''zzz'') 6000
          (after ex_two_players) = Inr s2
        \<and> heap s2 0 = Some g2 \<and> round' g2 = None \<and> map_of (players g2) ''p2'' = Some p2
        \<and> \<not> lastCorrect p2)
   \<and> (\<exists>s1 g1 p1. endRound 0 (after ex_two_players) = Inr s1 \<and> heap s1 0 = Some g1
        \<and> map_of (players g1) ''p1'' = Some p1 \<and> lastCorrect p1)"
proof -
  let ?s = "after ex_two_players"
  from ex_answering obtain g where g: "heap ?s 0 = Some g" by auto
  have m: "map_of (games ?s) ''ABCD'' = Some 0" using ex_answering by simp
  from ex_answering g obtain rd where r: "round' g = Some rd" by auto
  from ex_answering g obtain q where q: "question_at g (currentIndex g) = Some q" by auto
  from ex_answering g obtain p1 where p1: "map_of (players g) ''p1'' = Some p1" by auto
  from ex_answering g obtain p2 where p2: "map_of (players g) ''p2'' = Some p2" by auto
  have v: "awaiting rd = {''p2''}" "selectedOptionId p1 = JStr ''b''" "selectedOptionId p2 = JNull"
    "id' q = ''q1''" "correctOptionIds q = [''b'']"
    using ex_answering g r q p1 p2 by simp_all
  note th = player_answer_guards [where s = ?s and gameId = "''ABCD''" and r = 0 and g = g
      and rd = rd and q = q]
  have one: "player_answer ''p1'' ''ABCD'' (JStr ''q1'') (JStr ''a'') 6000 ?s = Inr ?s"
    using th [where sock = "''p1''" and questionId = "JStr ''q1''" and optionId = "JStr ''a''"
        and now = 6000, THEN conjunct1] m g p1 v
    by simp
  have pre: "map_of (games ?s) ''ABCD'' = Some 0 \<and> heap ?s 0 = Some g \<and> round' g = Some rd
      \<and> map_of (players g) ''p2'' = Some p2 \<and> question_at g (currentIndex g) = Some q
      \<and> selectedOptionId p2 = JNull"
    using m g r q p2 v by simp
  have emp: "awaiting rd - {''p2''} = {}" using v by simp
  from th [where sock = "''p2''" and p = p2 and x = "''zzz''" and now = 6000,
      THEN conjunct2, THEN conjunct1, THEN mp, OF pre]
  have two: "\<exists>s2 g2 p2. player_answer ''p2'' ''ABCD'' (JStr ''q1'') (JStr ''zzz'') 6000 ?s = Inr s2
        \<and> heap s2 0 = Some g2 \<and> round' g2 = None \<and> map_of (players g2) ''p2'' = Some p2
        \<and> \<not> lastCorrect p2"
    using emp v by (elim exE conjE) simp
  have pre3: "heap ?s 0 = Some g \<and> round' g = Some rd
      \<and> question_at g (currentIndex g) = Some q
      \<and> map_of (players g) ''p1'' = Some p1 \<and> selectedOptionId p1 = JStr ''b''"
    using g r q p1 v by simp
  from th [where sock = "''p1''" and p = p1 and x = "''b''",
      THEN conjunct2, THEN conjunct2, THEN mp, OF pre3]
  have three: "\<exists>s1 g1 p1. endRound 0 ?s = Inr s1 \<and> heap s1 0 = Some g1
        \<and> map_of (players g1) ''p1'' = Some p1 \<and> lastCorrect p1"
    using v by (elim exE conjE) auto
  show ?thesis using one two three by blast
qed

subsection \<open>The rounds the server builds\<close>

text \<open>Every handler keeps the invariant of the rounds.\<close>

lemma round_ok_players: "round_ok g \<Longrightarrow> round_ok (g\<lparr>players := ps\<rparr>)"
  by (simp add: round_ok_def question_at_def)

lemma round_ok_started: "round_ok g \<Longrightarrow> round_ok (g\<lparr>started := b\<rparr>)"
  by (simp add: round_ok_def question_at_def)

lemma round_ok_no_round: "round_ok g \<Longrightarrow> round_ok (g\<lparr>players := ps, round' := None\<rparr>)"
  by (simp add: round_ok_def question_at_def)

lemma round_ok_awaiting:
  "round_ok g \<Longrightarrow> round' g = Some rd \<Longrightarrow>
   round_ok (g\<lparr>players := ps, round' := Some (rd\<lparr>awaiting := a\<rparr>)\<rparr>)"
  by (simp add: round_ok_def question_at_def)

lemma rounds_put:
  assumes "rounds_ok s" and "heap s1 = (heap s)(r \<mapsto> g1)" and "round_ok g1"
  shows "rounds_ok s1"
  using assms unfolding rounds_ok_def by (auto split: if_splits)

lemma rounds_frame: "rounds_ok s \<Longrightarrow> heap s1 = heap s \<Longrightarrow> rounds_ok s1"
  unfolding rounds_ok_def by simp

lemma rounds_entry: "rounds_ok s \<Longrightarrow> heap s r = Some g \<Longrightarrow> round_ok g"
  unfolding rounds_ok_def by blast

lemma put_game_rounds:
  "rounds_ok s \<Longrightarrow> round_ok g1 \<Longrightarrow> rounds_ok (put_game r g1 s)"
  by (rule rounds_put [where s = s and r = r and ?g1.0 = g1]) (simp_all add: put_game_def)

lemma emit_rounds: "rounds_ok s \<Longrightarrow> rounds_ok (emit to msg s)"
  by (simp add: rounds_ok_def emit_def)

lemma clearTimeout_rounds: "rounds_ok s \<Longrightarrow> rounds_ok (clearTimeout h s)"
  by (simp add: rounds_ok_def clearTimeout_def)

lemma endRound_rounds:
  assumes "rounds_ok s" and "endRound r s = Inr s1"
  shows "rounds_ok s1"
proof (cases "\<exists>g rd q. heap s r = Some g \<and> round' g = Some rd
    \<and> question_at g (currentIndex g) = Some q")
  case False
  then have "s1 = s" using assms(2)
    by (auto simp: endRound_def split: option.splits)
  then show ?thesis using assms(1) by simp
next
  case True
  then obtain g rd q where g: "heap s r = Some g" and c: "round' g = Some rd"
    "question_at g (currentIndex g) = Some q"
    by blast
  let ?g2 = "g\<lparr>players := map (\<lambda>kp. (fst kp, score_player q (endMs rd) (snd kp))) (players g),
      round' := None\<rparr>"
  have "heap s1 = (heap s)(r \<mapsto> ?g2)"
    using assms(2) g c
    by (auto simp: endRound_def Let_def emit_def put_game_def clearTimeout_def)
  moreover have "round_ok ?g2"
    using rounds_entry [OF assms(1) g] by (rule round_ok_no_round)
  ultimately show ?thesis using rounds_put [OF assms(1)] by blast
qed

lemma maybeEndEarly_rounds:
  assumes "rounds_ok s" and "maybeEndEarly r s = Inr s1"
  shows "rounds_ok s1"
  using assms
  by (auto simp: maybeEndEarly_def split: option.splits if_splits
      dest: endRound_rounds [OF clearTimeout_rounds])

lemma startQuestion_rounds:
  assumes "rounds_ok s" and "startQuestion r now s = Inr s1"
  shows "rounds_ok s1"
proof (cases "heap s r")
  case None
  then show ?thesis using assms by (simp add: startQuestion_def)
next
  case (Some g0)
  let ?g = "g0\<lparr>currentIndex := currentIndex g0 + 1\<rparr>"
  have ok0: "round_ok g0" using rounds_entry [OF assms(1) Some] .
  show ?thesis
  proof (cases "currentIndex ?g \<ge> int (length (questions ?g))")
    case True
    then have "heap s1 = (heap s)(r \<mapsto> ?g)"
      using assms(2) Some
      by (auto simp: startQuestion_def Let_def endGame_def emit_def put_game_def)
    moreover have "round_ok ?g"
      using ok0 True by (simp add: round_ok_def question_at_def)
    ultimately show ?thesis using rounds_put [OF assms(1)] by blast
  next
    case False
    show ?thesis
    proof (cases "question_at ?g (currentIndex ?g)")
      case None
      then show ?thesis using assms(2) Some False by (simp add: startQuestion_def Let_def)
    next
      case (Some q)
      from assms(2) \<open>heap s r = Some g0\<close> False Some obtain g2 rd2 where
        h: "heap s1 = (heap s)(r \<mapsto> g2)" and
        g2: "questions g2 = questions g0" "currentIndex g2 = currentIndex g0 + 1"
          "round' g2 = Some rd2" "startMs rd2 = now"
          "endMs rd2 = of_int now + timeLimitSeconds q * 1000"
        by (auto simp: startQuestion_def Let_def emit_def put_game_def setTimeout_def)
      have "question_at g2 (currentIndex g2) = question_at ?g (currentIndex ?g)"
        using g2 by (simp add: question_at_def)
      then have q2: "question_at g2 (currentIndex g2) = Some q" using Some by simp
      have "round_ok g2"
        unfolding round_ok_def using ok0 q2 g2 by (simp add: round_ok_def)
      then show ?thesis using rounds_put [OF assms(1) h] by blast
    qed
  qed
qed

lemma clamp_time_range: "5 \<le> clamp_time x \<and> clamp_time x \<le> 90"
  by (simp add: clamp_time_def)

lemma createGameState_ok: "round_ok (createGameState sock payload nid rnd)"
  by (auto simp: round_ok_def createGameState_def Let_def make_question_def clamp_time_range
      split: prod.splits)

lemma handle_rounds:
  assumes "rounds_ok s" and "handle sock has_ack req s = Inr s1"
  shows "rounds_ok s1"
proof (cases req)
  case (CreateGame payload nid rnd)
  show ?thesis
  proof (cases "length (games s) \<ge> MAX_GAMES \<or> \<not> validateQuizPayload payload")
    case True
    then have "heap s1 = heap s"
      using assms(2) CreateGame
      by (auto simp: handle_def host_createGame_def send_ack_def emit_def split: if_splits)
    then show ?thesis using rounds_frame [OF assms(1)] by simp
  next
    case False
    then have "heap s1 = (heap s)(next_ref s \<mapsto> createGameState sock payload nid rnd)"
      using assms(2) CreateGame
      by (auto simp: handle_def host_createGame_def send_ack_def emit_def broadcastLobby_def
          Let_def)
    then show ?thesis using rounds_put [OF assms(1) _ createGameState_ok] by blast
  qed
next
  case (StartGame gameId t)
  show ?thesis
  proof (cases "\<exists>r g. map_of (games s) gameId = Some r \<and> heap s r = Some g
      \<and> hostSocketId g = sock \<and> \<not> started g")
    case False
    then have "s1 = s" using assms(2) StartGame
      by (auto simp: handle_def host_startGame_def split: option.splits if_splits)
    then show ?thesis using assms(1) by simp
  next
    case True
    then obtain r g where r: "map_of (games s) gameId = Some r" and g: "heap s r = Some g"
      and c: "hostSocketId g = sock" "\<not> started g"
      by blast
    let ?g1 = "g\<lparr>started := True\<rparr>"
    let ?s2 = "emit (game_id ?g1) (GameStarted (title ?g1)) (put_game r ?g1 s)"
    have run: "startQuestion r t ?s2 = Inr s1"
      using assms(2) StartGame r g c by (simp add: handle_def host_startGame_def Let_def)
    have "rounds_ok ?s2"
      by (intro emit_rounds put_game_rounds assms(1) round_ok_started rounds_entry [OF assms(1) g])
    then show ?thesis using startQuestion_rounds run by blast
  qed
next
  case (Next gameId t)
  then show ?thesis using assms
    by (auto simp: handle_def host_next_def split: option.splits if_splits
        dest: startQuestion_rounds)
next
  case (Join gameId nm)
  show ?thesis
  proof (cases "\<exists>r g. map_of (games s) gameId = Some r \<and> heap s r = Some g
      \<and> \<not> started g \<and> \<not> length (players g) \<ge> MAX_PLAYERS_PER_GAME")
    case False
    then have "heap s1 = heap s"
      using assms(2) Join
      by (auto simp: handle_def player_join_def send_ack_def emit_def
          split: option.splits if_splits)
    then show ?thesis using rounds_frame [OF assms(1)] by simp
  next
    case True
    then obtain r g where r: "map_of (games s) gameId = Some r" and g: "heap s r = Some g"
      and c: "\<not> started g" "\<not> length (players g) \<ge> MAX_PLAYERS_PER_GAME"
      by blast
    let ?g1 = "g\<lparr>players := AList.update sock
        \<lparr>name = sanitizeName nm, score = 0, answeredAtMs = None,
         selectedOptionId = JNull, lastCorrect = False\<rparr> (players g)\<rparr>"
    have "heap s1 = (heap s)(r \<mapsto> ?g1)"
      using assms(2) Join r g c
      by (auto simp: handle_def player_join_def send_ack_def emit_def broadcastLobby_def
          put_game_def Let_def)
    moreover have "round_ok ?g1"
      using rounds_entry [OF assms(1) g] by (rule round_ok_players)
    ultimately show ?thesis using rounds_put [OF assms(1)] by blast
  qed
next
  case (Answer gameId questionId optionId t)
  show ?thesis
  proof (cases "\<exists>r g rd p q. map_of (games s) gameId = Some r \<and> heap s r = Some g
      \<and> round' g = Some rd \<and> map_of (players g) sock = Some p
      \<and> question_at g (currentIndex g) = Some q \<and> JStr (id' q) = questionId
      \<and> selectedOptionId p = JNull")
    case False
    then have "s1 = s" using assms(2) Answer
      by (auto simp: handle_def player_answer_def split: option.splits if_splits)
    then show ?thesis using assms(1) by simp
  next
    case True
    then obtain r g rd p q where r: "map_of (games s) gameId = Some r"
      and g: "heap s r = Some g"
      and c: "round' g = Some rd" "map_of (players g) sock = Some p"
        "question_at g (currentIndex g) = Some q" "JStr (id' q) = questionId"
        "selectedOptionId p = JNull"
      by blast
    let ?g1 = "g\<lparr>players := AList.update sock
        (p\<lparr>selectedOptionId := optionId, answeredAtMs := Some t\<rparr>) (players g),
        round' := Some (rd\<lparr>awaiting := awaiting rd - {sock}\<rparr>)\<rparr>"
    let ?s2 = "emit sock (PlayerLocked optionId) (put_game r ?g1 s)"
    have "round_ok ?g1"
      using rounds_entry [OF assms(1) g] c(1) by (rule round_ok_awaiting)
    then have p: "rounds_ok ?s2"
      by (intro emit_rounds put_game_rounds assms(1))
    have "maybeEndEarly r ?s2 = Inr s1"
      using assms(2) Answer r g c by (simp add: handle_def player_answer_def Let_def)
    from maybeEndEarly_rounds [OF p this] show ?thesis .
  qed
qed

lemma disconnect_loop_rounds:
  assumes "rounds_ok s" and "disconnect_loop sock es s = Inr s1"
  shows "rounds_ok s1"
  using assms(2)
proof (induction es)
  case Nil
  then show ?case using assms(1) by simp
next
  case (Cons e es)
  obtain k r where e: "e = (k, r)" by (cases e)
  show ?case
  proof (cases "heap s r")
    case None
    then show ?thesis using Cons e by simp
  next
    case (Some g)
    let ?g1 = "g\<lparr>players := AList.delete sock (players g)\<rparr>"
    let ?s2 = "broadcastLobby ?g1 (put_game r ?g1 s)"
    have f2: "rounds_ok ?s2"
      unfolding broadcastLobby_def
      by (intro emit_rounds put_game_rounds assms(1) round_ok_players
          rounds_entry [OF assms(1) Some])
    consider (host) "hostSocketId g = sock"
      | (player) "hostSocketId g \<noteq> sock" "map_of (players g) sock \<noteq> None"
      | (skip) "hostSocketId g \<noteq> sock" "map_of (players g) sock = None"
      by blast
    then show ?thesis
    proof cases
      case host
      then have "heap s1 = heap s"
        using Cons.prems e Some by (auto simp: Let_def emit_def)
      then show ?thesis using rounds_frame [OF assms(1)] by simp
    next
      case player
      show ?thesis
      proof (cases "\<exists>rd. round' g = Some rd \<and> length (players ?g1) = 0")
        case True
        then obtain rd where "round' g = Some rd" "length (players ?g1) = 0" by blast
        then have "endRound r (clearTimeout (timer rd) ?s2) = Inr s1"
          using Cons.prems e Some player by (simp add: Let_def)
        then show ?thesis using endRound_rounds clearTimeout_rounds [OF f2] by blast
      next
        case False
        then have "s1 = ?s2"
          using Cons.prems e Some player by (auto simp: Let_def split: option.splits if_splits)
        then show ?thesis using f2 by simp
      qed
    next
      case skip
      then show ?thesis using Cons e Some by simp
    qed
  qed
qed

lemma step_rounds:
  assumes "rounds_ok s" and "step s ev = Inr s1"
  shows "rounds_ok s1"
proof (cases ev)
  case (Request sock ip now has_ack req)
  have s0: "rounds_ok (s\<lparr>rateLimitMap := m\<rparr>)" for m
    using assms(1) by (simp add: rounds_ok_def)
  show ?thesis
    using assms(2) Request s0
    by (auto simp: step_def wrapRateLimit_def Let_def split: if_splits
        dest: handle_rounds [OF s0] simp: rounds_ok_def emit_def)
next
  case (Disconnect sock)
  then show ?thesis using assms disconnect_loop_rounds by (auto simp: step_def disconnect_def)
next
  case (TimerFire h)
  then show ?thesis using assms
    by (auto simp: step_def split: option.splits
        dest: endRound_rounds [OF clearTimeout_rounds])
qed

lemma reachable_rounds: "reachable s \<Longrightarrow> rounds_ok s"
proof (induction rule: reachable.induct)
  case reachable_init
  show ?case by (simp add: rounds_ok_def init_server_def)
next
  case (reachable_step s ev s1)
  then show ?case using step_rounds by blast
qed

subsection \<open>What a round awards\<close>

text \<open>
  C1, as stated, fails for the range of the points. The stamp of an answer is read from
  the wall clock, which can be set back. Here the round starts at 3000 and ends at 23000
  (the time limit is 20 s); the clock is set back and the only player answers correctly
  at 1000, which is before the deadline. The round, which this answer ends, awards the
  player 1050 points.
\<close>

theorem endRound_range_counterexample:
  "startMs (the (round' (the (heap (after [ex_create, ex_join ''p1'' ''ann'', ex_start]) 0))))
     = 3000
   \<and> endMs (the (round' (the (heap (after [ex_create, ex_join ''p1'' ''ann'', ex_start]) 0))))
     = 23000
   \<and> score (the (map_of (players (the (heap
        (after [ex_create, ex_join ''p1'' ''ann'', ex_start]) 0))) ''p1'')) = 0
   \<and> reveals (after ex_clock_back) = [QuestionReveal [''b''] 0 1 [(''ann'', 1050, True)]]
   \<and> answeredAtMs (the (map_of (players (the (heap (after ex_clock_back) 0))) ''p1''))
     = Some 1000
   \<and> lastCorrect (the (map_of (players (the (heap (after ex_clock_back) 0))) ''p1''))
   \<and> score (the (map_of (players (the (heap (after ex_clock_back) 0))) ''p1'')) = 1050"
  by (simp add: model_defs reveals_def is_reveal_def ex_clock_back_def)

text \<open>
  C1, amended. In a reachable state, take a game object with a round, either listed in
  the registry or, if it was deleted while its timer is pending, with its current
  question in place. Then \<open>endRound\<close> returns and gives every player of the game an
  increment that depends only on the question's time limit, the round's end, the
  player's answer stamp and whether the answer is correct. A player whose answer is not
  correct gets 0. A correct answer gets
  \<open>floor (500 + 500 * max 0 (roundEnd - t) / (timeLimitSeconds * 1000))\<close>, which is between
  500 and 1000, and exactly 500 for an answer at the deadline, when its stamp \<open>t\<close> is not 0
  and not earlier than the start of the round (the clock has not been set back
  meanwhile) and the time limit is a whole number of seconds.
\<close>

theorem endRound_awards:
  assumes "reachable s" and "heap s r = Some g" and "round' g = Some rd"
    and "map_of (players g) sock = Some p"
    and "(gameId, r) \<in> set (games s) \<or> question_at g (currentIndex g) \<noteq> None"
  shows "\<exists>q s1 g1 p1. question_at g (currentIndex g) = Some q
     \<and> endRound r s = Inr s1 \<and> heap s1 r = Some g1 \<and> map_of (players g1) sock = Some p1
     \<and> (\<not> (selectedOptionId p \<noteq> JNull \<and> includes' (correctOptionIds q) (selectedOptionId p))
          \<longrightarrow> score p1 - score p = 0)
     \<and> (selectedOptionId p \<noteq> JNull \<and> includes' (correctOptionIds q) (selectedOptionId p)
          \<and> answeredAtMs p = Some t \<and> t \<noteq> 0 \<and> startMs rd \<le> t
          \<and> timeLimitSeconds q \<in> \<int>
          \<longrightarrow> score p1 - score p
                = \<lfloor>500 + 500 * max 0 (endMs rd - of_int t) / (timeLimitSeconds q * 1000)\<rfloor>
              \<and> 500 \<le> score p1 - score p \<and> score p1 - score p \<le> 1000
              \<and> (of_int t = endMs rd \<longrightarrow> score p1 - score p = 500))"
proof -
  have "question_at g (currentIndex g) \<noteq> None"
  proof (cases "(gameId, r) \<in> set (games s)")
    case True
    have "game_inv g"
      using live_entry [OF _ True assms(2)] reachable_inv [OF assms(1)] by simp
    then show ?thesis using assms(3) unfolding game_inv_def question_at_def by auto
  next
    case False
    then show ?thesis using assms(5) by simp
  qed
  then obtain q where q: "question_at g (currentIndex g) = Some q" by auto
  have ok: "round_ok g" using rounds_entry [OF reachable_rounds [OF assms(1)] assms(2)] .
  have qin: "q \<in> set (questions g)"
    using q by (auto simp: question_at_def split: if_splits)
  have pos: "0 < timeLimitSeconds q" using ok qin unfolding round_ok_def by fastforce
  have fin: "endMs rd = of_int (startMs rd) + timeLimitSeconds q * 1000"
    using ok assms(3) q unfolding round_ok_def by blast
  from endRound_result [OF assms(2,3) q] obtain s1 g1 where
    e: "endRound r s = Inr s1" and h: "heap s1 r = Some g1"
    and pl: "players g1 = map (\<lambda>kp. (fst kp, score_player q (endMs rd) (snd kp))) (players g)"
    by blast
  let ?p1 = "score_player q (endMs rd) p"
  have m: "map_of (players g1) sock = Some ?p1"
    unfolding pl map_of_map_snd using assms(4) by simp
  have zero: "score ?p1 - score p = 0"
    if "\<not> (selectedOptionId p \<noteq> JNull \<and> includes' (correctOptionIds q) (selectedOptionId p))"
    using that by (auto simp: score_player_def Let_def)
  have form: "score ?p1 - score p
        = \<lfloor>500 + 500 * max 0 (endMs rd - of_int t) / (timeLimitSeconds q * 1000)\<rfloor>
      \<and> 500 \<le> score ?p1 - score p \<and> score ?p1 - score p \<le> 1000
      \<and> (of_int t = endMs rd \<longrightarrow> score ?p1 - score p = 500)"
    if c: "selectedOptionId p \<noteq> JNull \<and> includes' (correctOptionIds q) (selectedOptionId p)
      \<and> answeredAtMs p = Some t \<and> t \<noteq> 0 \<and> startMs rd \<le> t
      \<and> timeLimitSeconds q \<in> \<int>"
  proof -
    have inc: "score ?p1 - score p
        = \<lfloor>500 + 500 * (max 0 (endMs rd - of_int t) / (timeLimitSeconds q * 1000))\<rfloor>"
      using c by (simp add: score_player_score)
    have lo: "500 \<le> score ?p1 - score p"
      unfolding inc using pos by (rule points_lower)
    have "endMs rd - timeLimitSeconds q * 1000 \<le> of_int t"
      using c fin by simp
    then have up: "score ?p1 - score p \<le> 1000"
      unfolding inc using pos by (intro points_upper)
    have dl: "score ?p1 - score p = 500" if "of_int t = endMs rd"
      unfolding inc using that by simp
    show ?thesis
    proof (intro conjI impI)
      show "score ?p1 - score p
        = \<lfloor>500 + 500 * max 0 (endMs rd - of_int t) / (timeLimitSeconds q * 1000)\<rfloor>"
        using inc by simp
      show "500 \<le> score ?p1 - score p" by (rule lo)
      show "score ?p1 - score p \<le> 1000" by (rule up)
      show "score ?p1 - score p = 500" if "of_int t = endMs rd"
        using dl that by blast
    qed
  qed
  show ?thesis using q e h m zero form by blast
qed

lemma ex_scored_state:
  "games (after ex_two_players) = [(''ABCD'', 0)]
   \<and> startMs (the (round' (the (heap (after ex_two_players) 0)))) = 3000
   \<and> endMs (the (round' (the (heap (after ex_two_players) 0)))) = 23000
   \<and> timeLimitSeconds (the (question_at (the (heap (after ex_two_players) 0))
        (currentIndex (the (heap (after ex_two_players) 0))))) = 20
   \<and> answeredAtMs (the (map_of (players (the (heap (after ex_two_players) 0))) ''p1''))
       = Some 5000
   \<and> score (the (map_of (players (the (heap (after ex_two_players) 0))) ''p1'')) = 0
   \<and> score (the (map_of (players (the (heap (after ex_two_players) 0))) ''p2'')) = 0"
  by (simp add: model_defs ex_two_players_def)

lemma ex_deadline_state:
  "games (after ex_at_deadline) = [(''ABCD'', 0)]
   \<and> heap (after ex_at_deadline) 0 \<noteq> None
   \<and> round' (the (heap (after ex_at_deadline) 0)) \<noteq> None
   \<and> startMs (the (round' (the (heap (after ex_at_deadline) 0)))) = 3000
   \<and> endMs (the (round' (the (heap (after ex_at_deadline) 0)))) = 23000
   \<and> question_at (the (heap (after ex_at_deadline) 0))
        (currentIndex (the (heap (after ex_at_deadline) 0))) \<noteq> None
   \<and> timeLimitSeconds (the (question_at (the (heap (after ex_at_deadline) 0))
        (currentIndex (the (heap (after ex_at_deadline) 0))))) = 20
   \<and> correctOptionIds (the (question_at (the (heap (after ex_at_deadline) 0))
        (currentIndex (the (heap (after ex_at_deadline) 0))))) = [''b'']
   \<and> map_of (players (the (heap (after ex_at_deadline) 0))) ''p1'' \<noteq> None
   \<and> selectedOptionId (the (map_of (players (the (heap (after ex_at_deadline) 0))) ''p1''))
       = JStr ''b''
   \<and> answeredAtMs (the (map_of (players (the (heap (after ex_at_deadline) 0))) ''p1''))
       = Some 23000
   \<and> score (the (map_of (players (the (heap (after ex_at_deadline) 0))) ''p1'')) = 0"
  by (simp add: model_defs ex_at_deadline_def)

lemma ex_deleted_state:
  "games (after ex_host_leaves) = []
   \<and> heap (after ex_host_leaves) 0 \<noteq> None
   \<and> round' (the (heap (after ex_host_leaves) 0)) \<noteq> None
   \<and> question_at (the (heap (after ex_host_leaves) 0))
        (currentIndex (the (heap (after ex_host_leaves) 0))) \<noteq> None
   \<and> map_of (players (the (heap (after ex_host_leaves) 0))) ''p1'' \<noteq> None
   \<and> selectedOptionId (the (map_of (players (the (heap (after ex_host_leaves) 0))) ''p1''))
       = JNull
   \<and> score (the (map_of (players (the (heap (after ex_host_leaves) 0))) ''p1'')) = 0"
  by (simp add: model_defs ex_host_leaves_def)

theorem endRound_awards_witness:
  "reachable (after ex_two_players)
   \<and> (''ABCD'', 0) \<in> set (games (after ex_two_players))
   \<and> (\<exists>s1 g1 p1. endRound 0 (after ex_two_players) = Inr s1 \<and> heap s1 0 = Some g1
         \<and> map_of (players g1) ''p1'' = Some p1 \<and> score p1 = 950)
   \<and> (\<exists>s1 g1 p2. endRound 0 (after ex_two_players) = Inr s1 \<and> heap s1 0 = Some g1
         \<and> map_of (players g1) ''p2'' = Some p2 \<and> score p2 = 0)
   \<and> (\<exists>s1 g1 p1. endRound 0 (after ex_at_deadline) = Inr s1 \<and> heap s1 0 = Some g1
         \<and> map_of (players g1) ''p1'' = Some p1 \<and> score p1 = 500)
   \<and> games (after ex_host_leaves) = []
   \<and> (\<exists>s1 g1 p1. endRound 0 (after ex_host_leaves) = Inr s1 \<and> heap s1 0 = Some g1
         \<and> map_of (players g1) ''p1'' = Some p1 \<and> score p1 = 0)"
proof -
  let ?s = "after ex_two_players"
  have a: "reachable ?s" by (rule reachable_after)
  have m: "(''ABCD'', 0) \<in> set (games ?s)" using ex_scored_state by simp
  from ex_answering obtain g where g: "heap ?s 0 = Some g" by auto
  from ex_answering g obtain rd where r: "round' g = Some rd" by auto
  from ex_answering g obtain q where q: "question_at g (currentIndex g) = Some q" by auto
  from ex_answering g obtain p1 where p1: "map_of (players g) ''p1'' = Some p1" by auto
  from ex_answering g obtain p2 where p2: "map_of (players g) ''p2'' = Some p2" by auto
  have v: "selectedOptionId p1 = JStr ''b''" "selectedOptionId p2 = JNull"
    "correctOptionIds q = [''b'']" "startMs rd = 3000" "endMs rd = 23000"
    "timeLimitSeconds q = 20" "answeredAtMs p1 = Some 5000" "score p1 = 0" "score p2 = 0"
    using ex_answering ex_scored_state g r q p1 p2 by simp_all
  have one: "\<exists>s1 g1 p1. endRound 0 ?s = Inr s1 \<and> heap s1 0 = Some g1
         \<and> map_of (players g1) ''p1'' = Some p1 \<and> score p1 = 950"
    using endRound_awards [OF a g r p1 disjI1 [OF m], where t = 5000] q v
    by (elim exE conjE) (auto simp: includes'_def)
  have two: "\<exists>s1 g1 p2. endRound 0 ?s = Inr s1 \<and> heap s1 0 = Some g1
         \<and> map_of (players g1) ''p2'' = Some p2 \<and> score p2 = 0"
    using endRound_awards [OF a g r p2 disjI1 [OF m], where t = 0] q v
    by (elim exE conjE) (auto simp: includes'_def)
  let ?d = "after ex_at_deadline"
  have da: "reachable ?d" by (rule reachable_after)
  have dm: "(''ABCD'', 0) \<in> set (games ?d)" using ex_deadline_state by simp
  from ex_deadline_state obtain dg where dg: "heap ?d 0 = Some dg" by auto
  from ex_deadline_state dg obtain drd where dr: "round' dg = Some drd" by auto
  from ex_deadline_state dg obtain dq where dq: "question_at dg (currentIndex dg) = Some dq"
    by auto
  from ex_deadline_state dg obtain dp where dp: "map_of (players dg) ''p1'' = Some dp" by auto
  have dv: "selectedOptionId dp = JStr ''b''" "correctOptionIds dq = [''b'']"
    "startMs drd = 3000" "endMs drd = 23000" "timeLimitSeconds dq = 20"
    "answeredAtMs dp = Some 23000" "score dp = 0"
    using ex_deadline_state dg dr dq dp by simp_all
  have three: "\<exists>s1 g1 p1. endRound 0 ?d = Inr s1 \<and> heap s1 0 = Some g1
         \<and> map_of (players g1) ''p1'' = Some p1 \<and> score p1 = 500"
    using endRound_awards [OF da dg dr dp disjI1 [OF dm], where t = 23000] dq dv
    by (elim exE conjE) (auto simp: includes'_def)
  let ?x = "after ex_host_leaves"
  have xa: "reachable ?x" by (rule reachable_after)
  have xm: "games ?x = []" using ex_deleted_state by simp
  from ex_deleted_state obtain xg where xg: "heap ?x 0 = Some xg" by auto
  from ex_deleted_state xg obtain xrd where xr: "round' xg = Some xrd" by auto
  from ex_deleted_state xg obtain xq where xq: "question_at xg (currentIndex xg) = Some xq"
    by auto
  from ex_deleted_state xg obtain xp where xp: "map_of (players xg) ''p1'' = Some xp" by auto
  have xv: "selectedOptionId xp = JNull" "score xp = 0"
    using ex_deleted_state xg xp by simp_all
  have xn: "question_at xg (currentIndex xg) \<noteq> None" using xq by simp
  have four: "\<exists>s1 g1 p1. endRound 0 ?x = Inr s1 \<and> heap s1 0 = Some g1
         \<and> map_of (players g1) ''p1'' = Some p1 \<and> score p1 = 0"
    using endRound_awards [OF xa xg xr xp disjI2 [OF xn], where t = 0] xq xv
    by (elim exE conjE) auto
  show ?thesis using a m one two three xm four by blast
qed

end
